theory Spec2Isabelle
  imports Main "HOL-Library.Sublist" "HOL-Library.Char_ord" "HOL-Library.List_Lexorder"
begin

section \<open>JavaScript strings\<close>

text \<open>
  A JavaScript string is a sequence of code units; the model uses \<open>string\<close> (one
  \<open>char\<close> per code unit, so it covers the code units below 256). Indices are
  \<open>int\<close>, because \<open>indexOf\<close> answers \<open>-1\<close> and the program does arithmetic on
  that answer.
\<close>

definition jsLength :: "string \<Rightarrow> int" where
  "jsLength s = int (length s)"

text \<open>\<open>String.prototype.substring(a, b)\<close>: both arguments are clamped to
  \<open>[0, length]\<close> and swapped when \<open>a > b\<close>.\<close>

definition substring :: "string \<Rightarrow> int \<Rightarrow> int \<Rightarrow> string" where
  "substring s a b =
     (let n = jsLength s;
          a' = min (max a 0) n;
          b' = min (max b 0) n;
          lo = min a' b';
          hi = max a' b'
      in take (nat (hi - lo)) (drop (nat lo) s))"

text \<open>\<open>String.prototype.slice(a, b)\<close>: a negative argument counts from the end;
  \<open>slice(a)\<close> runs to the end of the string.\<close>

definition slice :: "string \<Rightarrow> int \<Rightarrow> int \<Rightarrow> string" where
  "slice s a b =
     (let n = jsLength s;
          from = (if a < 0 then max (n + a) 0 else min a n);
          to = (if b < 0 then max (n + b) 0 else min b n)
      in take (nat (to - from)) (drop (nat from) s))"

definition sliceFrom :: "string \<Rightarrow> int \<Rightarrow> string" where
  "sliceFrom s a = slice s a (jsLength s)"

text \<open>\<open>String.prototype.indexOf(pat, from)\<close>: \<open>from\<close> is clamped to
  \<open>[0, length]\<close>; the answer is the least index at or after it where \<open>pat\<close>
  stands, and \<open>-1\<close> when there is none. The empty pattern stands everywhere, also at
  the end of the string.\<close>

fun findFrom :: "string \<Rightarrow> string \<Rightarrow> nat \<Rightarrow> int" where
  "findFrom pat [] k = (if pat = [] then int k else - 1)"
| "findFrom pat (c # cs) k =
     (if take (length pat) (c # cs) = pat then int k else findFrom pat cs (Suc k))"

definition indexOf :: "string \<Rightarrow> string \<Rightarrow> int \<Rightarrow> int" where
  "indexOf s pat from =
     (let start = nat (min (max from 0) (jsLength s))
      in findFrom pat (drop start s) start)"

text \<open>\<open>String.prototype.trim()\<close> removes white space and line terminators from both
  ends; below 256 these are TAB, LF, VT, FF, CR, SPACE and NBSP.\<close>

definition isWhiteSpace :: "char \<Rightarrow> bool" where
  "isWhiteSpace c = (c \<in> set [CHR 0x09, CHR 0x0A, CHR 0x0B, CHR 0x0C, CHR 0x0D, CHR 0x20, CHR 0xA0])"

definition trim :: "string \<Rightarrow> string" where
  "trim s = rev (dropWhile isWhiteSpace (rev (dropWhile isWhiteSpace s)))"

text \<open>\<open>pat\<close> stands in \<open>s\<close> at index \<open>k\<close>.\<close>

definition occursAt :: "string \<Rightarrow> string \<Rightarrow> int \<Rightarrow> bool" where
  "occursAt s pat k =
     (0 \<le> k \<and> nat k + length pat \<le> length s \<and> take (length pat) (drop (nat k) s) = pat)"

section \<open>The last-resort search of applyHighlightByContext\<close>

text \<open>
  The loop of lines 425-431:
  \<^verbatim>\<open>while ((foundIndex = containerText.indexOf(position.text, searchStart)) !== -1) {
    allMatches.push(foundIndex); searchStart = foundIndex + 1; }\<close>
  For the empty pattern \<open>indexOf\<close> never answers \<open>-1\<close>, so the loop does not end:
  not returning is the value \<open>None\<close>.
\<close>

partial_function (option) collectMatches :: "string \<Rightarrow> string \<Rightarrow> int \<Rightarrow> int list \<Rightarrow> int list option" where
  "collectMatches containerText pat searchStart allMatches =
     (let foundIndex = indexOf containerText pat searchStart
      in if foundIndex \<noteq> - 1
         then collectMatches containerText pat (foundIndex + 1) (allMatches @ [foundIndex])
         else Some allMatches)"

declare collectMatches.simps [code]

text \<open>The callback of \<open>allMatches.reduce\<close> (lines 440-442) and \<open>reduce\<close> without an
  initial value on a non-empty array.\<close>

definition closer :: "int \<Rightarrow> int \<Rightarrow> int \<Rightarrow> int" where
  "closer startOffset prev cur =
     (if \<bar>cur - startOffset\<bar> < \<bar>prev - startOffset\<bar> then cur else prev)"

fun reduce1 :: "('a \<Rightarrow> 'a \<Rightarrow> 'a) \<Rightarrow> 'a list \<Rightarrow> 'a option" where
  "reduce1 f [] = None"
| "reduce1 f (x # xs) = Some (foldl f x xs)"

section \<open>The document tree\<close>

text \<open>
  The DOM is a library of the platform; its nodes, ranges and mutation algorithms are
  modelled after the DOM Standard, as far as the program uses them. A document is its
  root element. A node is addressed by its path: the child indices from the root.
  An element carries what the program reads or writes: whether it is in the HTML
  namespace (the elements of inline SVG and MathML are not), its local name, \<open>id\<close>,
  \<open>class\<close> and \<open>data-highlight-id\<close> (\<open>dataset.highlightId\<close>). An absent \<open>id\<close>
  is the empty string, as \<open>el.id\<close> reads it. Elements have no namespace prefix, as the
  HTML parser and \<open>createElement\<close> make them.
\<close>

datatype exception = SyntaxError | TypeError | IndexSizeError | InvalidStateError | HierarchyRequestError

record attrs =
  htmlNamespace :: bool
  localName :: string
  idAttr :: string
  className :: string
  dataHighlightId :: "string option"

datatype node = Text string | Comment string | Element attrs "node list"

type_synonym path = "nat list"

fun nodeAt :: "node \<Rightarrow> path \<Rightarrow> node option" where
  "nodeAt n [] = Some n"
| "nodeAt (Element a cs) (i # p) = (if i < length cs then nodeAt (cs ! i) p else None)"
| "nodeAt (Text s) (i # p) = None"
| "nodeAt (Comment s) (i # p) = None"

text \<open>The length of a node: of its data, or the number of its children.\<close>

fun nodeLength :: "node \<Rightarrow> nat" where
  "nodeLength (Text s) = length s"
| "nodeLength (Comment s) = length s"
| "nodeLength (Element a cs) = length cs"

text \<open>The flattened text: the data of the Text descendants in document order.
  \<open>textContent\<close> is that for an element and a Text node, and the data of a comment.\<close>

fun descendantText :: "node \<Rightarrow> string" where
  "descendantText (Text s) = s"
| "descendantText (Comment s) = []"
| "descendantText (Element a cs) = concat (map descendantText cs)"

fun textContent :: "node \<Rightarrow> string" where
  "textContent (Comment s) = s"
| "textContent (Text s) = s"
| "textContent (Element a cs) = descendantText (Element a cs)"

text \<open>The Text nodes of a subtree in document order, each with its path from the root
  of the subtree and its data. A \<open>TreeWalker\<close> with \<open>SHOW_TEXT\<close> visits the ones below
  its root, never the root itself.\<close>

fun textNodes :: "node \<Rightarrow> (path \<times> string) list"
  and textNodesList :: "nat \<Rightarrow> node list \<Rightarrow> (path \<times> string) list" where
  "textNodes (Text s) = [([], s)]"
| "textNodes (Comment s) = []"
| "textNodes (Element a cs) = textNodesList 0 cs"
| "textNodesList i [] = []"
| "textNodesList i (c # cs) = map (\<lambda>(p, s). (i # p, s)) (textNodes c) @ textNodesList (Suc i) cs"

definition walkerTextNodes :: "node \<Rightarrow> path \<Rightarrow> (path \<times> string) list" where
  "walkerTextNodes doc container =
     (case nodeAt doc container of
        Some (Element a cs) \<Rightarrow> map (\<lambda>(p, s). (container @ p, s)) (textNodesList 0 cs)
      | _ \<Rightarrow> [])"

text \<open>The first element in document order whose attributes satisfy \<open>P\<close>.\<close>

fun findFirst :: "(attrs \<Rightarrow> bool) \<Rightarrow> node \<Rightarrow> path option"
  and findFirstList :: "(attrs \<Rightarrow> bool) \<Rightarrow> nat \<Rightarrow> node list \<Rightarrow> path option" where
  "findFirst P (Element a cs) = (if P a then Some [] else findFirstList P 0 cs)"
| "findFirst P (Text s) = None"
| "findFirst P (Comment s) = None"
| "findFirstList P i [] = None"
| "findFirstList P i (c # cs) =
     (case findFirst P c of Some p \<Rightarrow> Some (i # p) | None \<Rightarrow> findFirstList P (Suc i) cs)"

text \<open>
  \<open>document.querySelector(`[data-highlight-id="${id}"]`)\<close>. The id stands in a CSS
  string. With a double quote or a backslash in it the string ends early or holds an
  escape, and what the selector then means is outside the model (\<open>None\<close>). Without
  them: a line feed, form feed or carriage return makes a bad string and the call throws
  \<open>SyntaxError\<close>; the CSS parser reads U+0000 as U+FFFD, which no attribute value of
  the model holds, so nothing matches; for every other id (\<open>selectorSafe\<close>, as the ids
  of \<open>crypto.randomUUID()\<close> are) the selector is the attribute test and the answer is
  the first element in document order with that \<open>data-highlight-id\<close>.
\<close>

definition selectorSafe :: "string \<Rightarrow> bool" where
  "selectorSafe v =
     list_all (\<lambda>c. c \<notin> set [CHR 0x22, CHR 0x5C, CHR 0x0A, CHR 0x0C, CHR 0x0D, CHR 0x00]) v"

definition querySelectorHighlight :: "node \<Rightarrow> string \<Rightarrow> (exception + path option) option" where
  "querySelectorHighlight doc v =
     (if CHR 0x22 \<in> set v \<or> CHR 0x5C \<in> set v then None
      else if CHR 0x0A \<in> set v \<or> CHR 0x0C \<in> set v \<or> CHR 0x0D \<in> set v then Some (Inl SyntaxError)
      else if CHR 0x00 \<in> set v then Some (Inr None)
      else Some (Inr (findFirst (\<lambda>a. dataHighlightId a = Some v) doc)))"

text \<open>\<open>document.body\<close>: the first child of the \<open>html\<close> root element that is a
  \<open>body\<close> or a \<open>frameset\<close> element, all three in the HTML namespace; \<open>null\<close> when
  the root is no \<open>html\<close> element.\<close>

fun firstBody :: "nat \<Rightarrow> node list \<Rightarrow> path option" where
  "firstBody i [] = None"
| "firstBody i (Element a cs # rest) =
     (if htmlNamespace a \<and> (localName a = ''body'' \<or> localName a = ''frameset'') then Some [i]
      else firstBody (Suc i) rest)"
| "firstBody i (c # rest) = firstBody (Suc i) rest"

fun documentBody :: "node \<Rightarrow> path option" where
  "documentBody (Element a cs) =
     (if htmlNamespace a \<and> localName a = ''html'' then firstBody 0 cs else None)"
| "documentBody n = None"

subsection \<open>Boundary points and ranges\<close>

record domRange =
  startContainer :: path
  rangeStartOffset :: nat
  endContainer :: path
  rangeEndOffset :: nat

text \<open>The position of one boundary point relative to another (DOM Standard, 5.2):
  \<open>bpBefore p1 o1 p2 o2\<close> when \<open>(p1, o1)\<close> is before \<open>(p2, o2)\<close>.\<close>

fun bpBefore :: "path \<Rightarrow> nat \<Rightarrow> path \<Rightarrow> nat \<Rightarrow> bool" where
  "bpBefore [] o1 [] o2 = (o1 < o2)"
| "bpBefore [] o1 (j # q) o2 = (o1 \<le> j)"
| "bpBefore (i # p) o1 [] o2 = (i < o2)"
| "bpBefore (i # p) o1 (j # q) o2 = (if i = j then bpBefore p o1 q o2 else i < j)"

text \<open>The flattened text of the document before a boundary point.\<close>

fun textBefore :: "node \<Rightarrow> path \<Rightarrow> nat \<Rightarrow> string" where
  "textBefore (Text s) [] k = take k s"
| "textBefore (Comment s) [] k = []"
| "textBefore (Element a cs) [] k = concat (map descendantText (take k cs))"
| "textBefore (Element a cs) (i # p) k =
     (if i < length cs then concat (map descendantText (take i cs)) @ textBefore (cs ! i) p k
      else [])"
| "textBefore (Text s) (i # p) k = []"
| "textBefore (Comment s) (i # p) k = []"

text \<open>The stringifier of a range: the data of the Text nodes between its boundary
  points, which is the flattened text between them. A range has its start at or before
  its end.\<close>

definition rangeToString :: "node \<Rightarrow> domRange \<Rightarrow> string" where
  "rangeToString doc r =
     drop (length (textBefore doc (startContainer r) (rangeStartOffset r)))
       (textBefore doc (endContainer r) (rangeEndOffset r))"

text \<open>An offset argument is an \<open>unsigned long\<close>: the number is taken modulo \<open>2^32\<close>.\<close>

definition toUint32 :: "int \<Rightarrow> nat" where
  "toUint32 x = nat (x mod 4294967296)"

text \<open>\<open>document.createRange()\<close> is collapsed at the start of the document;
  \<open>setStart\<close> and \<open>setEnd\<close> throw \<open>IndexSizeError\<close> for an offset beyond the node's
  length and keep the start at or before the end.\<close>

definition createRange :: domRange where
  "createRange = \<lparr>startContainer = [], rangeStartOffset = 0, endContainer = [], rangeEndOffset = 0\<rparr>"

definition setStartAt :: "node \<Rightarrow> domRange \<Rightarrow> path \<Rightarrow> nat \<Rightarrow> exception + domRange" where
  "setStartAt doc r p k =
     (case nodeAt doc p of
        None \<Rightarrow> Inl TypeError
      | Some n \<Rightarrow>
          if k > nodeLength n then Inl IndexSizeError
          else if bpBefore (endContainer r) (rangeEndOffset r) p k
          then Inr \<lparr>startContainer = p, rangeStartOffset = k, endContainer = p, rangeEndOffset = k\<rparr>
          else Inr (r\<lparr>startContainer := p, rangeStartOffset := k\<rparr>))"

definition setEndAt :: "node \<Rightarrow> domRange \<Rightarrow> path \<Rightarrow> nat \<Rightarrow> exception + domRange" where
  "setEndAt doc r p k =
     (case nodeAt doc p of
        None \<Rightarrow> Inl TypeError
      | Some n \<Rightarrow>
          if k > nodeLength n then Inl IndexSizeError
          else if bpBefore p k (startContainer r) (rangeStartOffset r)
          then Inr \<lparr>startContainer = p, rangeStartOffset = k, endContainer = p, rangeEndOffset = k\<rparr>
          else Inr (r\<lparr>endContainer := p, rangeEndOffset := k\<rparr>))"

text \<open>Called with a JavaScript number, which is converted first.\<close>

definition setStart :: "node \<Rightarrow> domRange \<Rightarrow> path \<Rightarrow> int \<Rightarrow> exception + domRange" where
  "setStart doc r p off = setStartAt doc r p (toUint32 off)"

definition setEnd :: "node \<Rightarrow> domRange \<Rightarrow> path \<Rightarrow> int \<Rightarrow> exception + domRange" where
  "setEnd doc r p off = setEndAt doc r p (toUint32 off)"

text \<open>\<open>commonAncestorContainer\<close>: the deepest node that is an inclusive ancestor of both
  boundary nodes, that is the longest common prefix of their paths.\<close>

fun commonPrefix :: "path \<Rightarrow> path \<Rightarrow> path" where
  "commonPrefix (i # p) (j # q) = (if i = j then i # commonPrefix p q else [])"
| "commonPrefix p q = []"

definition commonAncestorContainer :: "domRange \<Rightarrow> path" where
  "commonAncestorContainer r = commonPrefix (startContainer r) (endContainer r)"

definition collapsed :: "domRange \<Rightarrow> bool" where
  "collapsed r = (startContainer r = endContainer r \<and> rangeStartOffset r = rangeEndOffset r)"

subsection \<open>Extracting a range and inserting a node\<close>

text \<open>
  \<open>Range.extractContents\<close> (DOM Standard, "extract a range"). A partially contained
  child is split at the boundary point inside it: the part outside the range stays, a
  clone with the part inside goes to the fragment. Nodes are values here, so the clone and
  the original differ only in what they hold, and one function splits for both ends.
\<close>

fun splitNode :: "node \<Rightarrow> path \<Rightarrow> nat \<Rightarrow> node \<times> node" where
  "splitNode (Text s) [] k = (Text (take k s), Text (drop k s))"
| "splitNode (Comment s) [] k = (Comment (take k s), Comment (drop k s))"
| "splitNode (Element a cs) [] k = (Element a (take k cs), Element a (drop k cs))"
| "splitNode (Element a cs) (i # p) k =
     (if i < length cs
      then (let (l, r) = splitNode (cs ! i) p k
            in (Element a (take i cs @ [l]), Element a (r # drop (Suc i) cs)))
      else (Element a cs, Element a []))"
| "splitNode (Text s) (i # p) k = (Text s, Text [])"
| "splitNode (Comment s) (i # p) k = (Comment s, Comment [])"

text \<open>\<open>extractIn n ps so pe eo\<close>: the node that remains and the children of the
  fragment, for the range from \<open>(ps, so)\<close> to \<open>(pe, eo)\<close> inside \<open>n\<close>.\<close>

fun extractIn :: "node \<Rightarrow> path \<Rightarrow> nat \<Rightarrow> path \<Rightarrow> nat \<Rightarrow> node \<times> node list" where
  "extractIn (Text s) [] so [] eo =
     (Text (take so s @ drop eo s), [Text (take (eo - so) (drop so s))])"
| "extractIn (Comment s) [] so [] eo =
     (Comment (take so s @ drop eo s), [Comment (take (eo - so) (drop so s))])"
| "extractIn (Element a cs) [] so [] eo =
     (Element a (take so cs @ drop eo cs), take (eo - so) (drop so cs))"
| "extractIn (Element a cs) [] so (j # pe) eo =
     (if j < length cs
      then (let (l2, r2) = splitNode (cs ! j) pe eo
            in (Element a (take so cs @ r2 # drop (Suc j) cs),
                take (j - so) (drop so cs) @ [l2]))
      else (Element a cs, []))"
| "extractIn (Element a cs) (i # ps) so [] eo =
     (if i < length cs
      then (let (l, r) = splitNode (cs ! i) ps so
            in (Element a (take i cs @ l # drop eo cs),
                r # take (eo - Suc i) (drop (Suc i) cs)))
      else (Element a cs, []))"
| "extractIn (Element a cs) (i # ps) so (j # pe) eo =
     (if i = j
      then (if i < length cs
            then (let (c, f) = extractIn (cs ! i) ps so pe eo in (Element a (cs[i := c]), f))
            else (Element a cs, []))
      else (if i < length cs \<and> j < length cs
            then (let (l, r) = splitNode (cs ! i) ps so;
                      (l2, r2) = splitNode (cs ! j) pe eo
                  in (Element a (take i cs @ l # r2 # drop (Suc j) cs),
                      r # take (j - Suc i) (drop (Suc i) cs) @ [l2]))
            else (Element a cs, [])))"
| "extractIn n ps so pe eo = (n, [])"

text \<open>Where the range is collapsed to after the extraction: the start, when the start
  node is an inclusive ancestor of the end node, and else behind the child of the common
  ancestor that holds the start.\<close>

fun newBoundary :: "path \<Rightarrow> nat \<Rightarrow> path \<Rightarrow> path \<times> nat" where
  "newBoundary [] so pe = ([], so)"
| "newBoundary (i # ps) so [] = ([], Suc i)"
| "newBoundary (i # ps) so (j # pe) =
     (if i = j then (let (p, k) = newBoundary ps so pe in (i # p, k)) else ([], Suc i))"

text \<open>The answer is the document afterwards, the children of the fragment and the
  range; a collapsed range yields the empty fragment and changes nothing.\<close>

definition extractContents :: "node \<Rightarrow> domRange \<Rightarrow> node \<times> node list \<times> domRange" where
  "extractContents doc r =
     (if collapsed r then (doc, [], r)
      else
        (let (doc', fragment) =
               extractIn doc (startContainer r) (rangeStartOffset r) (endContainer r) (rangeEndOffset r);
             (p, k) = newBoundary (startContainer r) (rangeStartOffset r) (endContainer r)
         in (doc', fragment,
             \<lparr>startContainer = p, rangeStartOffset = k, endContainer = p, rangeEndOffset = k\<rparr>)))"

text \<open>
  \<open>Range.insertNode\<close>: a Text start node is split at the offset and the node goes
  between the halves; an element start node takes it as the child at the offset; a
  comment start node throws \<open>HierarchyRequestError\<close>. \<open>insertIn\<close> answers the
  nodes that stand for \<open>n\<close> afterwards.
\<close>

fun insertIn :: "node \<Rightarrow> path \<Rightarrow> nat \<Rightarrow> node \<Rightarrow> node list option" where
  "insertIn (Text s) [] k m = Some [Text (take k s), m, Text (drop k s)]"
| "insertIn (Comment s) [] k m = None"
| "insertIn (Element a cs) [] k m = Some [Element a (take k cs @ m # drop k cs)]"
| "insertIn (Element a cs) (i # p) k m =
     (if i < length cs
      then (case insertIn (cs ! i) p k m of
              None \<Rightarrow> None
            | Some ns \<Rightarrow> Some [Element a (take i cs @ ns @ drop (Suc i) cs)])
      else None)"
| "insertIn (Text s) (i # p) k m = None"
| "insertIn (Comment s) (i # p) k m = None"

definition insertNode :: "node \<Rightarrow> domRange \<Rightarrow> node \<Rightarrow> exception + node" where
  "insertNode doc r m =
     (case insertIn doc (startContainer r) (rangeStartOffset r) m of
        Some [doc'] \<Rightarrow> Inr doc'
      | _ \<Rightarrow> Inl HierarchyRequestError)"

text \<open>A node is partially contained in a range when it is an inclusive ancestor of one
  boundary node and not of the other. \<open>sideNonText n p\<close>: on the way from \<open>n\<close> down
  to the boundary node at \<open>p\<close> there is a node other than a Text node.\<close>

fun sideNonText :: "node \<Rightarrow> path \<Rightarrow> bool" where
  "sideNonText n [] = False"
| "sideNonText (Element a cs) [i] =
     (i < length cs \<and> (case cs ! i of Text s \<Rightarrow> False | _ \<Rightarrow> True))"
| "sideNonText (Element a cs) (i # j # p) = True"
| "sideNonText n p = False"

fun partiallyContainsNonText :: "node \<Rightarrow> path \<Rightarrow> path \<Rightarrow> bool" where
  "partiallyContainsNonText (Element a cs) (i # p) (j # q) =
     (if i = j then i < length cs \<and> partiallyContainsNonText (cs ! i) p q
      else sideNonText (Element a cs) (i # p) \<or> sideNonText (Element a cs) (j # q))"
| "partiallyContainsNonText n [] q = sideNonText n q"
| "partiallyContainsNonText n p [] = sideNonText n p"
| "partiallyContainsNonText n p q = False"

text \<open>
  \<open>Range.surroundContents(newParent)\<close>: throws \<open>InvalidStateError\<close>, before it
  changes anything, when a node other than a Text node is partially contained; else it
  extracts the range, inserts \<open>newParent\<close> at the range and appends the fragment to it.
  The answer holds the exception thrown, if any, and the document and the range as the
  call leaves them.
\<close>

definition surroundContents :: "node \<Rightarrow> domRange \<Rightarrow> attrs \<Rightarrow> exception option \<times> node \<times> domRange" where
  "surroundContents doc r newParent =
     (if partiallyContainsNonText doc (startContainer r) (endContainer r)
      then (Some InvalidStateError, doc, r)
      else (let (doc1, fragment, r1) = extractContents doc r
            in case insertNode doc1 r1 (Element newParent fragment) of
                 Inl e \<Rightarrow> (Some e, doc1, r1)
               | Inr doc2 \<Rightarrow> (None, doc2, r1)))"

text \<open>\<open>Node.normalize()\<close>: in every list of children below the node, empty Text nodes
  go and neighbouring Text nodes become one.\<close>

fun mergeText :: "node list \<Rightarrow> node list" where
  "mergeText [] = []"
| "mergeText (Text s # rest) =
     (case mergeText rest of
        Text t # r \<Rightarrow> Text (s @ t) # r
      | r \<Rightarrow> if s = [] then r else Text s # r)"
| "mergeText (n # rest) = n # mergeText rest"

fun normalize :: "node \<Rightarrow> node" where
  "normalize (Element a cs) = Element a (mergeText (map normalize cs))"
| "normalize n = n"

section \<open>The content script\<close>

datatype HighlightColor = Yellow | Red | Green | LightBlue | LightPurple

fun colorName :: "HighlightColor \<Rightarrow> string" where
  "colorName Yellow = ''yellow''"
| "colorName Red = ''red''"
| "colorName Green = ''green''"
| "colorName LightBlue = ''lightBlue''"
| "colorName LightPurple = ''lightPurple''"

definition HIGHLIGHT_CLASS :: string where
  "HIGHLIGHT_CLASS = ''text-highlighter-extension-mark''"

text \<open>The interface \<open>HighlightPosition\<close>; its fields \<open>text\<close> and \<open>id\<close> are
  \<open>hlText\<close> and \<open>hlId\<close> here.\<close>

record HighlightPosition =
  hlText :: string
  xpath :: string
  startOffset :: int
  endOffset :: int
  beforeContext :: string
  afterContext :: string
  hlId :: string
  createdAt :: int
  comment :: "string option"
  tags :: "string list option"
  color :: "HighlightColor option"

subsection \<open>wrapRangeWithHighlight\<close>

text \<open>The \<open>mark\<close> element of lines 487-489 and 497-499.\<close>

definition createMark :: "string \<Rightarrow> HighlightColor \<Rightarrow> attrs" where
  "createMark highlightId c =
     \<lparr>htmlNamespace = True, localName = ''mark'', idAttr = [],
      className = HIGHLIGHT_CLASS @ '' color-'' @ colorName c,
      dataHighlightId = Some highlightId\<rparr>"

text \<open>
  Lines 485-507. When \<open>surroundContents\<close> throws, the range is extracted, the fragment
  appended to a new mark and the mark inserted at the range; only when that throws too the
  answer is \<open>false\<close>. \<open>extractContents\<close> throws for a doctype in the range alone, and
  an element holds none. The answer is the boolean and the document as the call leaves it.
\<close>

definition wrapRangeWithHighlight :: "node \<Rightarrow> domRange \<Rightarrow> string \<Rightarrow> HighlightColor \<Rightarrow> bool \<times> node" where
  "wrapRangeWithHighlight doc r highlightId c =
     (case surroundContents doc r (createMark highlightId c) of
        (None, doc', r') \<Rightarrow> (True, doc')
      | (Some e, doc1, r1) \<Rightarrow>
          (let (doc2, fragment, r2) = extractContents doc1 r1
           in case insertNode doc2 r2 (Element (createMark highlightId c) fragment) of
                Inr doc3 \<Rightarrow> (True, doc3)
              | Inl e2 \<Rightarrow> (False, doc2)))"

subsection \<open>removeHighlightById\<close>

text \<open>
  Lines 225-235: the children of the mark move before it, one by one, the mark is
  removed and its parent normalized. \<open>unwrapIn n p\<close> does that for the mark at the
  path \<open>p\<close> below \<open>n\<close>.
\<close>

fun unwrapIn :: "node \<Rightarrow> path \<Rightarrow> node" where
  "unwrapIn (Element a cs) [i] =
     (if i < length cs
      then (case cs ! i of
              Element m ms \<Rightarrow> normalize (Element a (take i cs @ ms @ drop (Suc i) cs))
            | _ \<Rightarrow> Element a cs)
      else Element a cs)"
| "unwrapIn (Element a cs) (i # j # p) =
     (if i < length cs then Element a (cs[i := unwrapIn (cs ! i) (j # p)]) else Element a cs)"
| "unwrapIn n p = n"

fun isComment :: "node \<Rightarrow> bool" where
  "isComment (Comment s) = True"
| "isComment n = False"

text \<open>
  The answer is the document afterwards. When the mark found is the root element, its
  parent is the document: moving a Text node or an element there throws
  \<open>HierarchyRequestError\<close>, and with comment children only the root is removed and the
  document is left without one (the inner \<open>None\<close>). The outer \<open>None\<close> is that of
  \<open>querySelectorHighlight\<close>.
\<close>

definition removeHighlightById :: "node \<Rightarrow> string \<Rightarrow> (exception + node option) option" where
  "removeHighlightById doc highlightId =
     (case querySelectorHighlight doc highlightId of
        None \<Rightarrow> None
      | Some (Inl e) \<Rightarrow> Some (Inl e)
      | Some (Inr None) \<Rightarrow> Some (Inr (Some doc))
      | Some (Inr (Some [])) \<Rightarrow>
          (case doc of
             Element a cs \<Rightarrow>
               if list_all isComment cs then Some (Inr None) else Some (Inl HierarchyRequestError)
           | _ \<Rightarrow> Some (Inr (Some doc)))
      | Some (Inr (Some (i # p))) \<Rightarrow> Some (Inr (Some (unwrapIn doc (i # p)))))"

subsection \<open>getXPath and getElementByXPath\<close>

text \<open>
  In an HTML document \<open>tagName\<close> is the name of the element, in ASCII upper case when
  the element is in the HTML namespace and as it is otherwise; \<open>toLowerCase\<close> lowers
  the letters of a string (below 256: A-Z and the Latin-1 capitals).
\<close>

definition asciiUpperChar :: "char \<Rightarrow> char" where
  "asciiUpperChar c =
     (let n = (of_char c :: nat) in if 97 \<le> n \<and> n \<le> 122 then char_of (n - 32) else c)"

definition asciiLowerChar :: "char \<Rightarrow> char" where
  "asciiLowerChar c =
     (let n = (of_char c :: nat) in if 65 \<le> n \<and> n \<le> 90 then char_of (n + 32) else c)"

definition lowerChar :: "char \<Rightarrow> char" where
  "lowerChar c =
     (let n = (of_char c :: nat)
      in if (65 \<le> n \<and> n \<le> 90) \<or> (192 \<le> n \<and> n \<le> 222 \<and> n \<noteq> 215) then char_of (n + 32)
         else c)"

definition tagName :: "attrs \<Rightarrow> string" where
  "tagName a = (if htmlNamespace a then map asciiUpperChar (localName a) else localName a)"

definition toLowerCase :: "string \<Rightarrow> string" where
  "toLowerCase s = map lowerChar s"

definition dq :: char where
  "dq = CHR 0x22"

text \<open>A number in a template string: its decimal digits.\<close>

definition digitChar :: "nat \<Rightarrow> char" where
  "digitChar d = char_of (48 + d)"

fun showNat :: "nat \<Rightarrow> string" where
  "showNat n = (if n < 10 then [digitChar n] else showNat (n div 10) @ [digitChar (n mod 10)])"

declare showNat.simps [simp del]

fun joinWith :: "string \<Rightarrow> string list \<Rightarrow> string" where
  "joinWith sep [] = []"
| "joinWith sep [x] = x"
| "joinWith sep (x # y # ys) = x @ sep @ joinWith sep (y # ys)"

text \<open>The inner loop of lines 265-274: one more than the number of preceding siblings
  that are elements with the same \<open>tagName\<close>.\<close>

fun sameTagName :: "string \<Rightarrow> node \<Rightarrow> bool" where
  "sameTagName t (Element b bs) = (tagName b = t)"
| "sameTagName t n = False"

definition siblingIndex :: "node list \<Rightarrow> nat \<Rightarrow> string \<Rightarrow> nat" where
  "siblingIndex cs i t = Suc (length (filter (sameTagName t) (take i cs)))"

text \<open>The part \<open>tag[index]\<close> for the element at a path. The root element has no element
  sibling before it.\<close>

definition xpathPart :: "node \<Rightarrow> path \<Rightarrow> string" where
  "xpathPart doc q =
     (case nodeAt doc q of
        Some (Element a cs) \<Rightarrow>
          (let index =
                 (if q = [] then 1
                  else (case nodeAt doc (butlast q) of
                          Some (Element b bs) \<Rightarrow> siblingIndex bs (last q) (tagName a)
                        | _ \<Rightarrow> 1))
           in toLowerCase (tagName a) @ ''['' @ showNat index @ '']'')
      | _ \<Rightarrow> [])"

text \<open>The outer loop of lines 264-279 walks from the element up to the root and puts
  each part in front; \<open>rq\<close> is the path of the current element, last index first.\<close>

fun xpathParts :: "node \<Rightarrow> nat list \<Rightarrow> string list \<Rightarrow> string list" where
  "xpathParts doc [] parts = xpathPart doc [] # parts"
| "xpathParts doc (i # rq) parts = xpathParts doc rq (xpathPart doc (rev (i # rq)) # parts)"

definition getXPath :: "node \<Rightarrow> path \<Rightarrow> string" where
  "getXPath doc p =
     (case nodeAt doc p of
        None \<Rightarrow> []
      | Some n \<Rightarrow>
          (let q = (case n of Text s \<Rightarrow> butlast p | _ \<Rightarrow> p)
           in case nodeAt doc q of
                Some (Element a cs) \<Rightarrow>
                  if idAttr a \<noteq> [] then ''//*[@id='' @ [dq] @ idAttr a @ [dq] @ '']''
                  else ''/'' @ joinWith ''/'' (xpathParts doc (rev q) [])
              | _ \<Rightarrow> []))"

text \<open>
  \<open>document.evaluate\<close> with \<open>FIRST_ORDERED_NODE_TYPE\<close> is modelled for the two forms
  of expression \<open>getXPath\<close> writes: \<open>//*[@id="v"]\<close> with no double quote in \<open>v\<close>,
  the first element in document order with that id, and \<open>/name[k]/name[k]...\<close>, where
  each step takes the \<open>k\<close>-th child element of that name. In an HTML document a name
  test without a prefix selects elements of the HTML namespace only, and is matched in
  ASCII lower case against the local name of the element. Every other string
  is outside the model, which answers as for a malformed expression: \<open>evaluate\<close>
  throws, and \<open>getElementByXPath\<close> catches and answers \<open>null\<close>.
\<close>

datatype xpathExpr = ById string | Steps "(string \<times> nat) list"

definition isDigit :: "char \<Rightarrow> bool" where
  "isDigit c = (48 \<le> (of_char c :: nat) \<and> (of_char c :: nat) \<le> 57)"

definition isLetter :: "char \<Rightarrow> bool" where
  "isLetter c = (let n = (of_char c :: nat) in (65 \<le> n \<and> n \<le> 90) \<or> (97 \<le> n \<and> n \<le> 122))"

definition isNameChar :: "char \<Rightarrow> bool" where
  "isNameChar c = (isLetter c \<or> isDigit c \<or> c \<in> set ''-_.'')"

fun validName :: "string \<Rightarrow> bool" where
  "validName [] = False"
| "validName (c # cs) = ((isLetter c \<or> c = CHR ''_'') \<and> list_all isNameChar cs)"

definition parseNat :: "string \<Rightarrow> nat" where
  "parseNat s = foldl (\<lambda>acc c. 10 * acc + ((of_char c :: nat) - 48)) 0 s"

fun splitOn :: "char \<Rightarrow> string \<Rightarrow> string list" where
  "splitOn c [] = [[]]"
| "splitOn c (x # xs) =
     (if x = c then [] # splitOn c xs
      else (case splitOn c xs of w # ws \<Rightarrow> (x # w) # ws | [] \<Rightarrow> [[x]]))"

definition parseStep :: "string \<Rightarrow> (string \<times> nat) option" where
  "parseStep seg =
     (let name = takeWhile (\<lambda>c. c \<noteq> CHR ''['') seg;
          rest = dropWhile (\<lambda>c. c \<noteq> CHR ''['') seg
      in case rest of
           [] \<Rightarrow> None
         | b # r \<Rightarrow>
             if validName name \<and> r \<noteq> [] \<and> last r = CHR '']'' \<and> butlast r \<noteq> []
                \<and> list_all isDigit (butlast r)
             then Some (name, parseNat (butlast r))
             else None)"

definition parseXPath :: "string \<Rightarrow> xpathExpr option" where
  "parseXPath s =
     (let pre = ''//*[@id='' @ [dq]; suf = [dq] @ '']'';
          v = take (length s - length pre - length suf) (drop (length pre) s)
      in if length pre + length suf \<le> length s \<and> take (length pre) s = pre
            \<and> drop (length s - length suf) s = suf \<and> dq \<notin> set v
         then Some (ById v)
         else (case s of
                 [] \<Rightarrow> None
               | c # rest \<Rightarrow>
                   if c = CHR ''/'' then map_option Steps (those (map parseStep (splitOn CHR ''/'' rest)))
                   else None))"

fun nameTest :: "string \<Rightarrow> node \<Rightarrow> bool" where
  "nameTest t (Element a cs) = (htmlNamespace a \<and> localName a = map asciiLowerChar t)"
| "nameTest t n = False"

text \<open>The index of the \<open>k\<close>-th child (counted from 1) that passes the name test.\<close>

fun nthNamed :: "string \<Rightarrow> nat \<Rightarrow> node list \<Rightarrow> nat \<Rightarrow> nat option" where
  "nthNamed t k [] i = None"
| "nthNamed t k (c # cs) i =
     (if nameTest t c then (if k = 1 then Some i else nthNamed t (k - 1) cs (Suc i))
      else nthNamed t k cs (Suc i))"

fun evalSteps :: "node \<Rightarrow> (string \<times> nat) list \<Rightarrow> path option" where
  "evalSteps n [] = Some []"
| "evalSteps (Element a cs) ((t, k) # rest) =
     (case nthNamed t k cs 0 of
        None \<Rightarrow> None
      | Some i \<Rightarrow> map_option (Cons i) (evalSteps (cs ! i) rest))"
| "evalSteps n ((t, k) # rest) = None"

fun evalXPath :: "node \<Rightarrow> xpathExpr \<Rightarrow> path option" where
  "evalXPath doc (ById v) = (if v = [] then None else findFirst (\<lambda>a. idAttr a = v) doc)"
| "evalXPath doc (Steps []) = None"
| "evalXPath doc (Steps ((t, k) # rest)) =
     (if nameTest t doc \<and> k = 1 then evalSteps doc rest else None)"

definition getElementByXPath :: "node \<Rightarrow> string \<Rightarrow> path option" where
  "getElementByXPath doc xp =
     (case parseXPath xp of
        None \<Rightarrow> None
      | Some e \<Rightarrow> evalXPath doc e)"

subsection \<open>applyHighlightByContext and applyHighlight\<close>

text \<open>
  The strategy that found the text. The source answers a boolean and logs the strategy;
  here the answer is \<open>Some\<close> of the strategy for \<open>true\<close> and \<open>None\<close> for \<open>false\<close>.
\<close>

datatype tier = AlreadyMarked | DirectOffset | FullContext | PartialContext | ClosestOccurrence

text \<open>
  Lines 405-444: the start of the text in the flattened text of the container. The outer
  \<open>None\<close> is the loop that does not end, the inner one is \<open>return false\<close>.
\<close>

definition contextTextStart :: "string \<Rightarrow> HighlightPosition \<Rightarrow> (tier \<times> int) option option" where
  "contextTextStart containerText position =
     (let searchPattern = beforeContext position @ hlText position @ afterContext position;
          contextIndex = indexOf containerText searchPattern 0
      in if contextIndex \<ge> 0
         then Some (Some (FullContext, contextIndex + jsLength (beforeContext position)))
         else
           (let partialPattern = sliceFrom (beforeContext position) (- 20) @ hlText position
                                   @ slice (afterContext position) 0 20;
                partialIndex = indexOf containerText partialPattern 0
            in if partialIndex \<ge> 0
               then Some (Some (PartialContext,
                                partialIndex + jsLength (sliceFrom (beforeContext position) (- 20))))
               else
                 (case collectMatches containerText (hlText position) 0 [] of
                    None \<Rightarrow> None
                  | Some allMatches \<Rightarrow>
                      (case reduce1 (closer (startOffset position)) allMatches of
                         None \<Rightarrow> Some None
                       | Some textStart \<Rightarrow> Some (Some (ClosestOccurrence, textStart))))))"

text \<open>
  The loop over the text nodes, lines 366-381 and again lines 455-470: the node and the
  offset in it for the start and for the end of the span from \<open>s\<close> to \<open>e\<close> of the
  flattened text.
\<close>

fun locate :: "(path \<times> string) list \<Rightarrow> int \<Rightarrow> (path \<times> int) option \<Rightarrow> int \<Rightarrow> int
    \<Rightarrow> (path \<times> int) option \<times> (path \<times> int) option" where
  "locate [] currentOffset startNode s e = (startNode, None)"
| "locate ((p, t) # rest) currentOffset startNode s e =
     (let nodeLen = jsLength t;
          startNode' = (if startNode = None \<and> currentOffset + nodeLen > s
                        then Some (p, s - currentOffset) else startNode)
      in if currentOffset + nodeLen \<ge> e then (startNode', Some (p, e - currentOffset))
         else locate rest (currentOffset + nodeLen) startNode' s e)"

text \<open>\<open>createRange\<close>, \<open>setStart\<close>, \<open>setEnd\<close> in a row.\<close>

definition buildRange :: "node \<Rightarrow> path \<Rightarrow> int \<Rightarrow> path \<Rightarrow> int \<Rightarrow> exception + domRange" where
  "buildRange doc startNode startNodeOffset endNode endNodeOffset =
     (case setStart doc createRange startNode startNodeOffset of
        Inl e \<Rightarrow> Inl e
      | Inr r \<Rightarrow> setEnd doc r endNode endNodeOffset)"

definition colorOrYellow :: "HighlightPosition \<Rightarrow> HighlightColor" where
  "colorOrYellow position = (case color position of None \<Rightarrow> Yellow | Some c \<Rightarrow> c)"

definition applyHighlightByContext :: "node \<Rightarrow> path \<Rightarrow> HighlightPosition \<Rightarrow> (tier option \<times> node) option" where
  "applyHighlightByContext doc container position =
     (case nodeAt doc container of
        None \<Rightarrow> Some (None, doc)
      | Some c \<Rightarrow>
          (case contextTextStart (textContent c) position of
             None \<Rightarrow> None
           | Some None \<Rightarrow> Some (None, doc)
           | Some (Some (t, textStart)) \<Rightarrow>
               (case locate (walkerTextNodes doc container) 0 None textStart
                       (textStart + jsLength (hlText position)) of
                  (Some (startNode, startNodeOffset), Some (endNode, endNodeOffset)) \<Rightarrow>
                    (case buildRange doc startNode startNodeOffset endNode endNodeOffset of
                       Inl e \<Rightarrow> Some (None, doc)
                     | Inr r \<Rightarrow>
                         (case wrapRangeWithHighlight doc r (hlId position) (colorOrYellow position) of
                            (ok, doc') \<Rightarrow> Some (if ok then Some t else None, doc')))
                | _ \<Rightarrow> Some (None, doc))))"

text \<open>
  Lines 337-401. \<open>document.body\<close> is \<open>null\<close> in a document without a body, and reading
  \<open>textContent\<close> of it throws \<open>TypeError\<close>. The answer is \<open>None\<close> when the search
  loop of \<open>applyHighlightByContext\<close> does not end, and for an id whose selector is
  outside the model.
\<close>

definition applyHighlight :: "node \<Rightarrow> HighlightPosition \<Rightarrow> (exception + tier option \<times> node) option" where
  "applyHighlight doc position =
     (case querySelectorHighlight doc (hlId position) of
        None \<Rightarrow> None
      | Some (Inl e) \<Rightarrow> Some (Inl e)
      | Some (Inr (Some existing)) \<Rightarrow> Some (Inr (Some AlreadyMarked, doc))
      | Some (Inr None) \<Rightarrow>
          (case getElementByXPath doc (xpath position) of
             None \<Rightarrow>
               (case documentBody doc of
                  None \<Rightarrow> Some (Inl TypeError)
                | Some body \<Rightarrow> map_option Inr (applyHighlightByContext doc body position))
           | Some container \<Rightarrow>
               (case locate (walkerTextNodes doc container) 0 None (startOffset position)
                       (endOffset position) of
                  (Some (startNode, startNodeOffset), Some (endNode, endNodeOffset)) \<Rightarrow>
                    (case buildRange doc startNode startNodeOffset endNode endNodeOffset of
                       Inl e \<Rightarrow> map_option Inr (applyHighlightByContext doc container position)
                     | Inr r \<Rightarrow>
                         if rangeToString doc r \<noteq> hlText position
                         then map_option Inr (applyHighlightByContext doc container position)
                         else
                           (case wrapRangeWithHighlight doc r (hlId position) (colorOrYellow position) of
                              (ok, doc') \<Rightarrow> Some (Inr (if ok then Some DirectOffset else None, doc'))))
                | _ \<Rightarrow> map_option Inr (applyHighlightByContext doc container position))))"

subsection \<open>createHighlightFromSelection and handleSaveHighlight\<close>

text \<open>
  A selection has at most one range here. Its string is what the browser renders for it
  (\<open>selection.toString()\<close>), which is no function of the tree alone.
\<close>

record selection =
  selRange :: "domRange option"
  selString :: string

definition rangeCount :: "selection \<Rightarrow> nat" where
  "rangeCount sel = (case selRange sel of None \<Rightarrow> 0 | Some r \<Rightarrow> 1)"

definition isCollapsed :: "selection \<Rightarrow> bool" where
  "isCollapsed sel = (case selRange sel of None \<Rightarrow> True | Some r \<Rightarrow> collapsed r)"

definition selectNodeContents :: "node \<Rightarrow> path \<Rightarrow> domRange" where
  "selectNodeContents doc p =
     \<lparr>startContainer = p, rangeStartOffset = 0, endContainer = p,
      rangeEndOffset = (case nodeAt doc p of None \<Rightarrow> 0 | Some n \<Rightarrow> nodeLength n)\<rparr>"

text \<open>Lines 301-334. \<open>crypto.randomUUID()\<close> and \<open>Date.now()\<close> are the arguments
  \<open>newId\<close> and \<open>now\<close>.\<close>

definition createHighlightFromSelection :: "node \<Rightarrow> selection \<Rightarrow> string \<Rightarrow> int \<Rightarrow> exception + HighlightPosition option" where
  "createHighlightFromSelection doc sel newId now =
     (if rangeCount sel = 0 \<or> isCollapsed sel then Inr None
      else
        (case selRange sel of
           None \<Rightarrow> Inl IndexSizeError
         | Some r \<Rightarrow>
             (let txt = trim (selString sel)
              in if txt = [] then Inr None
                 else
                   (let container = commonAncestorContainer r;
                        xp = getXPath doc container;
                        containerText = (case nodeAt doc container of None \<Rightarrow> [] | Some n \<Rightarrow> textContent n);
                        textStart = indexOf containerText txt 0;
                        before = substring containerText (max 0 (textStart - 50)) textStart;
                        after = substring containerText (textStart + jsLength txt)
                                  (textStart + jsLength txt + 50)
                    in case setEndAt doc (selectNodeContents doc container) (startContainer r)
                              (rangeStartOffset r) of
                         Inl e \<Rightarrow> Inl e
                       | Inr preRange \<Rightarrow>
                           (let start = jsLength (rangeToString doc preRange)
                            in Inr (Some \<lparr>hlText = txt, xpath = xp, startOffset = start,
                                          endOffset = start + jsLength txt,
                                          beforeContext = before, afterContext = after,
                                          hlId = newId, createdAt = now,
                                          comment = None, tags = None, color = None\<rparr>))))))"

text \<open>Lines 510-515.\<close>

definition highlightSelection :: "node \<Rightarrow> selection \<Rightarrow> string \<Rightarrow> HighlightColor \<Rightarrow> bool \<times> node" where
  "highlightSelection doc sel highlightId c =
     (if rangeCount sel = 0 \<or> isCollapsed sel then (False, doc)
      else (case selRange sel of
              None \<Rightarrow> (False, doc)
            | Some r \<Rightarrow> wrapRangeWithHighlight doc r highlightId c))"

text \<open>
  Lines 148-199. \<open>window.getSelection()\<close> may be \<open>null\<close>. The modal is a collaborator:
  its answer is an argument, and its own elements are not in the model. The answer is the
  document afterwards and the \<open>saveHighlightData\<close> messages sent.
\<close>

datatype modalAnswer = ModalSave string "string list" HighlightColor | ModalCancel

definition handleSaveHighlight :: "node \<Rightarrow> selection option \<Rightarrow> string \<Rightarrow> int \<Rightarrow> modalAnswer
    \<Rightarrow> exception + node \<times> HighlightPosition list" where
  "handleSaveHighlight doc selection newId now answer =
     (case selection of
        None \<Rightarrow> Inr (doc, [])
      | Some sel \<Rightarrow>
          if isCollapsed sel \<or> trim (selString sel) = [] then Inr (doc, [])
          else
            (case createHighlightFromSelection doc sel newId now of
               Inl e \<Rightarrow> Inl e
             | Inr None \<Rightarrow> Inr (doc, [])
             | Inr (Some highlightData) \<Rightarrow>
                 (case answer of
                    ModalCancel \<Rightarrow> Inr (doc, [])
                  | ModalSave cm tg c \<Rightarrow>
                      (case highlightSelection doc sel (hlId highlightData) c of
                         (success, doc') \<Rightarrow>
                           Inr (doc',
                                if success
                                then [highlightData\<lparr>comment := Some cm, tags := Some tg, color := Some c\<rparr>]
                                else [])))))"

section \<open>The storage key of a page\<close>

subsection \<open>The URL constructor\<close>

text \<open>
  \<open>new URL(url)\<close> runs the basic URL parser of the URL Standard without a base URL.
  The parser removes leading and trailing C0 controls and spaces and all tabs and
  newlines, and fails (the constructor throws a \<open>TypeError\<close>) when what is left does
  not begin with a scheme: a letter, then letters, digits, \<open>+\<close>, \<open>-\<close> and \<open>.\<close>, then a
  colon.
\<close>

definition isC0ControlOrSpace :: "char \<Rightarrow> bool" where
  "isC0ControlOrSpace c = ((of_char c :: nat) \<le> 32)"

definition isTabOrNewline :: "char \<Rightarrow> bool" where
  "isTabOrNewline c = ((of_char c :: nat) \<in> {9, 10, 13})"

definition stripInput :: "string \<Rightarrow> string" where
  "stripInput s =
     filter (\<lambda>c. \<not> isTabOrNewline c)
       (rev (dropWhile isC0ControlOrSpace (rev (dropWhile isC0ControlOrSpace s))))"

definition isSchemeChar :: "char \<Rightarrow> bool" where
  "isSchemeChar c = (isLetter c \<or> isDigit c \<or> c \<in> set ''+-.'')"

definition hasScheme :: "string \<Rightarrow> bool" where
  "hasScheme s =
     (case s of
        [] \<Rightarrow> False
      | c # cs \<Rightarrow>
          isLetter c \<and> (case dropWhile isSchemeChar cs of [] \<Rightarrow> False | d # ds \<Rightarrow> d = CHR '':''))"

text \<open>
  The URL record of the standard, with the components \<open>normalizeUrl\<close> reads.  The parser
  is modelled on the strings

    \<^item> \<open>http://\<close> or \<open>https://\<close>,
    \<^item> a host: labels of lower-case letters and digits, each starting with a letter,
      separated by dots (a domain that is neither an IPv4 address nor in need of IDNA
      processing), without credentials and without a port,
    \<^item> a path of letters, digits, \<open>-\<close>, \<open>.\<close>, \<open>_\<close>, \<open>~\<close> and \<open>/\<close> (none of them is
      percent-encoded by the path state),
    \<^item> optionally \<open>?\<close> and a query of printable ASCII characters other than the
      double quote, the apostrophe, \<open><\<close> and \<open>>\<close> (none of them is percent-encoded by the
      query state),
    \<^item> optionally \<open>#\<close> and any fragment.

  On these strings the model follows the states of the parser: the path state splits
  the path at \<open>/\<close>, a \<open>..\<close> segment shortens the path and a \<open>.\<close> segment is dropped,
  both leaving an empty segment when they come last.  The answer of \<open>URL_new\<close> is
  \<open>Some (Inl TypeError)\<close> when the constructor throws for want of a scheme,
  \<open>Some (Inr u)\<close> on the strings above, and \<open>None\<close> on every other string: those are
  outside the model.
\<close>

record URL =
  urlScheme :: string
  urlHost :: string
  urlPath :: "string list"
  urlQuery :: "string option"

definition isLowerAlpha :: "char \<Rightarrow> bool" where
  "isLowerAlpha c = (97 \<le> (of_char c :: nat) \<and> (of_char c :: nat) \<le> 122)"

definition hostLabel :: "string \<Rightarrow> bool" where
  "hostLabel l =
     (case l of [] \<Rightarrow> False | c # cs \<Rightarrow> isLowerAlpha c \<and> list_all (\<lambda>d. isLowerAlpha d \<or> isDigit d) cs)"

definition validHost :: "string \<Rightarrow> bool" where
  "validHost h = list_all hostLabel (splitOn CHR ''.'' h)"

definition isPathChar :: "char \<Rightarrow> bool" where
  "isPathChar c = (isLetter c \<or> isDigit c \<or> c \<in> set ''-._~/'')"

definition isFormChar :: "char \<Rightarrow> bool" where
  "isFormChar c = (isLetter c \<or> isDigit c \<or> c \<in> set ''*-._'')"

definition isQueryChar :: "char \<Rightarrow> bool" where
  "isQueryChar c =
     (33 \<le> (of_char c :: nat) \<and> (of_char c :: nat) \<le> 126
      \<and> c \<notin> set [dq, CHR 0x27, CHR ''#'', CHR ''<'', CHR ''>''])"

definition specialScheme :: "string \<Rightarrow> (string \<times> string) option" where
  "specialScheme input =
     (if take 8 input = ''https://'' then Some (''https'', drop 8 input)
      else if take 7 input = ''http://'' then Some (''http'', drop 7 input)
      else None)"

text \<open>The path state, one segment at a time; \<open>butlast\<close> shortens the path.\<close>

fun pathState :: "string list \<Rightarrow> string list \<Rightarrow> string list" where
  "pathState path [] = path"
| "pathState path (seg # rest) =
     (if seg = ''..'' then
        (if rest = [] then pathState (butlast path @ [[]]) rest else pathState (butlast path) rest)
      else if seg = ''.'' then
        (if rest = [] then pathState (path @ [[]]) rest else pathState path rest)
      else pathState (path @ [seg]) rest)"

definition URL_new :: "string \<Rightarrow> (exception + URL) option" where
  "URL_new input =
     (case specialScheme input of
        None \<Rightarrow> if hasScheme (stripInput input) then None else Some (Inl TypeError)
      | Some (sch, rest) \<Rightarrow>
          (let hostS = takeWhile (\<lambda>c. c \<notin> set ''/?#'') rest;
               r1 = dropWhile (\<lambda>c. c \<notin> set ''/?#'') rest;
               pathS = takeWhile (\<lambda>c. c \<notin> set ''?#'') r1;
               r2 = dropWhile (\<lambda>c. c \<notin> set ''?#'') r1;
               q = (case r2 of
                      [] \<Rightarrow> None
                    | c # r \<Rightarrow> if c = CHR ''?'' then Some (takeWhile (\<lambda>d. d \<noteq> CHR ''#'') r)
                              else None)
           in if validHost hostS \<and> list_all isPathChar pathS
                 \<and> (case q of None \<Rightarrow> True | Some s \<Rightarrow> list_all isQueryChar s)
              then Some (Inr \<lparr>urlScheme = sch, urlHost = hostS,
                              urlPath = pathState [] (splitOn CHR ''/'' (tl pathS)),
                              urlQuery = q\<rparr>)
              else None))"

text \<open>The getters: the origin of an http(s) URL without a port, the serialised path,
  and the query with its question mark unless it is null or empty.\<close>

definition origin :: "URL \<Rightarrow> string" where
  "origin u = urlScheme u @ ''://'' @ urlHost u"

definition pathname :: "URL \<Rightarrow> string" where
  "pathname u = concat (map (\<lambda>seg. CHR ''/'' # seg) (urlPath u))"

definition search :: "URL \<Rightarrow> string" where
  "search u = (case urlQuery u of None \<Rightarrow> [] | Some q \<Rightarrow> if q = [] then [] else CHR ''?'' # q)"

subsection \<open>URLSearchParams\<close>

text \<open>
  A \<open>URLSearchParams\<close> object is its list of name-value pairs.  The constructor drops a
  leading \<open>?\<close> and runs the \<open>application/x-www-form-urlencoded\<close> parser: the sequences
  between \<open>&\<close>, the empty ones skipped, each split at its first \<open>=\<close>, every \<open>+\<close> read as
  a space, then percent-decoded and decoded as UTF-8.  Decoding bytes below 128 gives
  the same characters; a name or value with another byte is outside the model
  (\<open>None\<close>).  \<open>toString\<close> is the serializer: a space is written \<open>+\<close>, letters, digits,
  \<open>*\<close>, \<open>-\<close>, \<open>.\<close> and \<open>_\<close> stay, and every other byte of the UTF-8 encoding is
  percent-encoded.
\<close>

type_synonym URLSearchParams = "(string \<times> string) list"

definition plusToSpace :: "char \<Rightarrow> char" where
  "plusToSpace c = (if c = CHR ''+'' then CHR '' '' else c)"

definition isHexDigit :: "char \<Rightarrow> bool" where
  "isHexDigit c =
     (let n = (of_char c :: nat)
      in (48 \<le> n \<and> n \<le> 57) \<or> (65 \<le> n \<and> n \<le> 70) \<or> (97 \<le> n \<and> n \<le> 102))"

definition hexValue :: "char \<Rightarrow> nat" where
  "hexValue c =
     (let n = (of_char c :: nat) in if n \<le> 57 then n - 48 else if n \<le> 70 then n - 55 else n - 87)"

fun percentDecode :: "string \<Rightarrow> string" where
  "percentDecode (c # h1 # h2 # r) =
     (if c = CHR ''%'' \<and> isHexDigit h1 \<and> isHexDigit h2
      then char_of (16 * hexValue h1 + hexValue h2) # percentDecode r
      else c # percentDecode (h1 # h2 # r))"
| "percentDecode (c # r) = c # percentDecode r"
| "percentDecode [] = []"

definition utf8Decode :: "string \<Rightarrow> string option" where
  "utf8Decode bytes = (if list_all (\<lambda>b. (of_char b :: nat) < 128) bytes then Some bytes else None)"

definition parseSequence :: "string \<Rightarrow> (string \<times> string) option" where
  "parseSequence bytes =
     (let name = takeWhile (\<lambda>c. c \<noteq> CHR ''='') bytes;
          val = (case dropWhile (\<lambda>c. c \<noteq> CHR ''='') bytes of [] \<Rightarrow> [] | e # v \<Rightarrow> v)
      in case (utf8Decode (percentDecode (map plusToSpace name)),
               utf8Decode (percentDecode (map plusToSpace val))) of
           (Some nameString, Some valueString) \<Rightarrow> Some (nameString, valueString)
         | _ \<Rightarrow> None)"

definition urlencodedParse :: "string \<Rightarrow> URLSearchParams option" where
  "urlencodedParse input =
     those (map parseSequence (filter (\<lambda>s. s \<noteq> []) (splitOn CHR ''&'' input)))"

definition URLSearchParams_new :: "string \<Rightarrow> URLSearchParams option" where
  "URLSearchParams_new init =
     urlencodedParse (case init of [] \<Rightarrow> [] | c # r \<Rightarrow> if c = CHR ''?'' then r else init)"

definition searchParamsKeys :: "URLSearchParams \<Rightarrow> string list" where
  "searchParamsKeys ps = map fst ps"

definition searchParamsGet :: "URLSearchParams \<Rightarrow> string \<Rightarrow> string option" where
  "searchParamsGet ps name = map_of ps name"

definition searchParamsAppend :: "URLSearchParams \<Rightarrow> string \<Rightarrow> string \<Rightarrow> URLSearchParams" where
  "searchParamsAppend ps name val = ps @ [(name, val)]"

definition hexDigit :: "nat \<Rightarrow> char" where
  "hexDigit d = (if d < 10 then char_of (48 + d) else char_of (55 + d))"

definition utf8Encode :: "char \<Rightarrow> nat list" where
  "utf8Encode c =
     (let n = (of_char c :: nat) in if n < 128 then [n] else [192 + n div 64, 128 + n mod 64])"

definition urlencodedByte :: "nat \<Rightarrow> string" where
  "urlencodedByte b =
     (if b = 32 then ''+''
      else if isFormChar (char_of b) then [char_of b]
      else [CHR ''%'', hexDigit (b div 16), hexDigit (b mod 16)])"

definition urlencodedString :: "string \<Rightarrow> string" where
  "urlencodedString s = concat (map urlencodedByte (concat (map utf8Encode s)))"

definition searchParamsToString :: "URLSearchParams \<Rightarrow> string" where
  "searchParamsToString ps =
     joinWith ''&'' (map (\<lambda>(name, val). urlencodedString name @ ''='' @ urlencodedString val) ps)"

subsection \<open>normalizeUrl\<close>

definition TRACKING_PARAMS :: "string list" where
  "TRACKING_PARAMS =
     [''utm_source'', ''utm_medium'', ''utm_campaign'', ''utm_term'', ''utm_content'', ''utm_id'',
      ''_ga'', ''_gid'', ''_gac'', ''gclid'', ''gclsrc'',
      ''fbclid'', ''fb_action_ids'', ''fb_action_types'', ''fb_source'', ''fb_ref'',
      ''msclkid'', ''mc_cid'', ''mc_eid'',
      ''mc_cid'', ''mc_eid'',
      ''twclid'', ''tw_source'', ''tw_medium'', ''tw_campaign'',
      ''li_fat_id'', ''lipi'',
      ''epik'',
      ''ttclid'',
      ''rdt_cid'',
      ''hsa_acc'', ''hsa_cam'', ''hsa_grp'', ''hsa_ad'', ''hsa_src'', ''hsa_tgt'', ''hsa_kw'',
      ''hsa_mt'', ''hsa_net'', ''hsa_ver'',
      ''ref'', ''referrer'', ''source'', ''campaign'', ''medium'', ''content'', ''term'',
      ''sessionid'', ''session_id'', ''_hsenc'', ''_hsmi'',
      ''mkt_tok'',
      ''igshid'', ''yclid'', ''gbraid'', ''wbraid'']"

text \<open>\<open>pathname.replace(/\/$/, '')\<close>: the pattern matches one slash at the end of the
  string.\<close>

definition replaceTrailingSlash :: "string \<Rightarrow> string" where
  "replaceTrailingSlash s = (if s \<noteq> [] \<and> last s = CHR ''/'' then butlast s else s)"

text \<open>
  \<open>normalizeUrl\<close>, lines 42-70 of the storage module.  \<open>sort\<close> without a comparison
  function orders strings by their code units, which is the lexicographic order of
  character lists.  The \<open>catch\<close> returns the argument.  The result is \<open>None\<close> where the
  URL or its query is outside the model of the two constructors.
\<close>

definition normalizeUrl :: "string \<Rightarrow> string option" where
  "normalizeUrl url =
     (case URL_new url of
        None \<Rightarrow> None
      | Some (Inl e) \<Rightarrow> Some url
      | Some (Inr parsed) \<Rightarrow>
          (case URLSearchParams_new (search parsed) of
             None \<Rightarrow> None
           | Some searchParams \<Rightarrow>
               (let sortedKeys = sort (filter (\<lambda>key. toLowerCase key \<notin> set TRACKING_PARAMS)
                                        (searchParamsKeys searchParams));
                    cleanedParams =
                      foldl (\<lambda>cleaned key.
                               case searchParamsGet searchParams key of
                                 Some val \<Rightarrow> searchParamsAppend cleaned key val
                               | None \<Rightarrow> cleaned)
                        [] sortedKeys;
                    queryString = searchParamsToString cleanedParams;
                    pathname' = replaceTrailingSlash (pathname parsed)
                in Some (origin parsed @ pathname'
                         @ (if queryString \<noteq> [] then ''?'' @ queryString else [])))))"

text \<open>\<open>getStorageKey\<close>, lines 73-78: the key under which the highlights of a page are
  stored.\<close>

definition STORAGE_PREFIX :: string where
  "STORAGE_PREFIX = ''highlights_''"

definition getStorageKey :: "string \<Rightarrow> string option" where
  "getStorageKey url = map_option (\<lambda>n. STORAGE_PREFIX @ n) (normalizeUrl url)"

section \<open>Predicates for the statements\<close>

text \<open>Some element of the subtree has attributes that satisfy \<open>P\<close>.\<close>

fun anyElement :: "(attrs \<Rightarrow> bool) \<Rightarrow> node \<Rightarrow> bool" where
  "anyElement P (Element a cs) = (P a \<or> (\<exists>c \<in> set cs. anyElement P c))"
| "anyElement P (Text s) = False"
| "anyElement P (Comment s) = False"

text \<open>A boundary point of the document: a node of it and an offset up to its length. A
  range of the document: two boundary points, the end not before the start.\<close>

definition validBoundary :: "node \<Rightarrow> path \<Rightarrow> nat \<Rightarrow> bool" where
  "validBoundary doc p k = (case nodeAt doc p of None \<Rightarrow> False | Some n \<Rightarrow> k \<le> nodeLength n)"

definition validRange :: "node \<Rightarrow> domRange \<Rightarrow> bool" where
  "validRange doc r =
     (validBoundary doc (startContainer r) (rangeStartOffset r)
      \<and> validBoundary doc (endContainer r) (rangeEndOffset r)
      \<and> \<not> bpBefore (endContainer r) (rangeEndOffset r) (startContainer r) (rangeStartOffset r))"

text \<open>The flattened text of a list of nodes, and the tree with the subtree at a path
  replaced.\<close>

abbreviation (input) flat :: "node list \<Rightarrow> string" where
  "flat ns \<equiv> concat (map descendantText ns)"

fun replaceAt :: "node \<Rightarrow> path \<Rightarrow> node \<Rightarrow> node" where
  "replaceAt n [] x = x"
| "replaceAt (Element a cs) (i # p) x =
     (if i < length cs then Element a (cs[i := replaceAt (cs ! i) p x]) else Element a cs)"
| "replaceAt (Text s) (i # p) x = Text s"
| "replaceAt (Comment s) (i # p) x = Comment s"

text \<open>The number of elements whose attributes satisfy \<open>P\<close>.\<close>

fun countElements :: "(attrs \<Rightarrow> bool) \<Rightarrow> node \<Rightarrow> nat" where
  "countElements P (Element a cs) = (if P a then 1 else 0) + sum_list (map (countElements P) cs)"
| "countElements P (Text s) = 0"
| "countElements P (Comment s) = 0"

text \<open>A list of children without an empty Text node and without two Text nodes in a
  row, and a node below which every list of children is so.\<close>

fun mergedList :: "node list \<Rightarrow> bool" where
  "mergedList [] = True"
| "mergedList (Text s # rest) =
     (s \<noteq> [] \<and> (case rest of Text t # r \<Rightarrow> False | _ \<Rightarrow> True) \<and> mergedList rest)"
| "mergedList (n # rest) = mergedList rest"

fun normalized :: "node \<Rightarrow> bool" where
  "normalized (Element a cs) = (mergedList cs \<and> list_all normalized cs)"
| "normalized n = True"

text \<open>Names as the HTML parser makes them for the standard and the custom elements: a
  lower-case ASCII letter, then lower-case ASCII letters, digits, \<open>-\<close>, \<open>_\<close> and
  \<open>.\<close>.\<close>

definition htmlNameChar :: "char \<Rightarrow> bool" where
  "htmlNameChar c =
     ((97 \<le> (of_char c :: nat) \<and> (of_char c :: nat) \<le> 122) \<or> isDigit c \<or> c \<in> set ''-_.'')"

fun htmlName :: "string \<Rightarrow> bool" where
  "htmlName [] = False"
| "htmlName (c # cs) = (97 \<le> (of_char c :: nat) \<and> (of_char c :: nat) \<le> 122 \<and> list_all htmlNameChar cs)"

text \<open>
  A sibling that \<open>getXPath\<close> and the name test count alike for an element named \<open>l\<close>:
  an HTML element whose name is \<open>l\<close> up to ASCII case is named \<open>l\<close>, and an element
  outside the HTML namespace is not named \<open>l\<close> in upper case. The siblings the HTML
  parser makes are so: it lowers the names of HTML elements, and the names of SVG and
  MathML elements start with a lower-case letter.
\<close>

fun siblingOk :: "string \<Rightarrow> node \<Rightarrow> bool" where
  "siblingOk l (Element c cs) =
     (if htmlNamespace c
      then (map asciiUpperChar (localName c) = map asciiUpperChar l \<longrightarrow> localName c = l)
      else localName c \<noteq> map asciiUpperChar l)"
| "siblingOk l n = True"

text \<open>The child \<open>i\<close> of a list of children is an HTML element with a parser-made name,
  and the siblings before it are as above; a path all of whose elements are so, below a
  root that is such an element.\<close>

definition stepOk :: "node list \<Rightarrow> nat \<Rightarrow> bool" where
  "stepOk cs i =
     (case cs ! i of
        Element b bs \<Rightarrow> htmlNamespace b \<and> htmlName (localName b)
                         \<and> list_all (siblingOk (localName b)) (take i cs)
      | _ \<Rightarrow> False)"

fun stepsOk :: "node \<Rightarrow> path \<Rightarrow> bool" where
  "stepsOk (Element a cs) (i # p) = (i < length cs \<and> stepOk cs i \<and> stepsOk (cs ! i) p)"
| "stepsOk n p = True"

definition htmlPath :: "node \<Rightarrow> path \<Rightarrow> bool" where
  "htmlPath doc p =
     (case doc of
        Element r rs \<Rightarrow> htmlNamespace r \<and> htmlName (localName r) \<and> stepsOk doc p
      | _ \<Rightarrow> False)"

text \<open>The steps from a node down a path: the name and the same-name index of each element
  on the way, and a step as \<open>getXPath\<close> writes it.\<close>

definition partOf :: "node list \<Rightarrow> nat \<Rightarrow> string \<times> nat" where
  "partOf cs i =
     (case cs ! i of
        Element b bs \<Rightarrow> (toLowerCase (tagName b), siblingIndex cs i (tagName b))
      | _ \<Rightarrow> ([], 0))"

fun stepsOf :: "node \<Rightarrow> path \<Rightarrow> (string \<times> nat) list" where
  "stepsOf (Element a cs) (i # p) = partOf cs i # stepsOf (cs ! i) p"
| "stepsOf n p = []"

definition partString :: "string \<times> nat \<Rightarrow> string" where
  "partString tk = fst tk @ ''['' @ showNat (snd tk) @ '']''"

text \<open>All indices at or after \<open>lo\<close> where \<open>pat\<close> stands in \<open>s\<close>, ascending.\<close>

definition occurrencesFrom :: "string \<Rightarrow> string \<Rightarrow> nat \<Rightarrow> int list" where
  "occurrencesFrom s pat lo = filter (occursAt s pat) (map int [lo..<Suc (length s)])"

text \<open>For \<open>normalizeUrl\<close>: parameters whose names and values are ASCII, the loop that
  fills \<open>cleanedParams\<close>, and paths as the path state leaves them.\<close>

definition asciiParams :: "URLSearchParams \<Rightarrow> bool" where
  "asciiParams ps =
     (\<forall>(name, val) \<in> set ps. (\<forall>c \<in> set name. (of_char c :: nat) < 128)
                              \<and> (\<forall>c \<in> set val. (of_char c :: nat) < 128))"

definition cleanedParams :: "URLSearchParams \<Rightarrow> URLSearchParams" where
  "cleanedParams searchParams =
     foldl (\<lambda>cleaned key.
              case searchParamsGet searchParams key of
                Some val \<Rightarrow> searchParamsAppend cleaned key val
              | None \<Rightarrow> cleaned)
       [] (sort (filter (\<lambda>key. toLowerCase key \<notin> set TRACKING_PARAMS)
                  (searchParamsKeys searchParams)))"

definition cleanPath :: "string list \<Rightarrow> bool" where
  "cleanPath segs =
     (\<forall>s \<in> set segs. s \<noteq> ''.'' \<and> s \<noteq> ''..'' \<and> CHR ''/'' \<notin> set s \<and> list_all isPathChar s)"

section \<open>Example documents\<close>

definition plainElement :: "string \<Rightarrow> node list \<Rightarrow> node" where
  "plainElement t cs =
     Element \<lparr>htmlNamespace = True, localName = t, idAttr = [], className = [], dataHighlightId = None\<rparr> cs"

text \<open>\<^verbatim>\<open><html><head></head><body><p><b>xx</b>hello world</p></body></html>\<close>, and the
  selection of \<open>world\<close> inside the second child of the paragraph, a Text node.\<close>

definition exDoc :: node where
  "exDoc = plainElement ''html'' [plainElement ''head'' [],
      plainElement ''body'' [plainElement ''p'' [plainElement ''b'' [Text ''xx''], Text ''hello world'']]]"

definition exSelection :: selection where
  "exSelection = \<lparr>selRange = Some \<lparr>startContainer = [1, 0, 1], rangeStartOffset = 6,
       endContainer = [1, 0, 1], rangeEndOffset = 11\<rparr>, selString = ''world''\<rparr>"

text \<open>The descriptor captured from that selection, and one whose text is not in the
  document.\<close>

definition exPosition :: HighlightPosition where
  "exPosition = \<lparr>hlText = ''world'', xpath = ''/html[1]/body[1]/p[1]'', startOffset = 6,
     endOffset = 11, beforeContext = ''hello '', afterContext = [], hlId = ''u1'', createdAt = 0,
     comment = None, tags = None, color = None\<rparr>"

definition exPositionAbsent :: HighlightPosition where
  "exPositionAbsent = exPosition\<lparr>hlText := ''absent''\<rparr>"

text \<open>\<^verbatim>\<open><html><body><p>Hello</p><p>World</p></body></html>\<close>, and a selection from
  inside the first paragraph to inside the second; the browser renders the paragraph break
  as two line feeds.\<close>

definition exDoc2 :: node where
  "exDoc2 = plainElement ''html'' [plainElement ''body''
      [plainElement ''p'' [Text ''Hello''], plainElement ''p'' [Text ''World'']]]"

definition exRange2 :: domRange where
  "exRange2 = \<lparr>startContainer = [0, 0, 0], rangeStartOffset = 3,
       endContainer = [0, 1, 0], rangeEndOffset = 2\<rparr>"

definition exSelection2 :: selection where
  "exSelection2 = \<lparr>selRange = Some exRange2, selString = ''lo'' @ [CHR 0x0A, CHR 0x0A] @ ''Wo''\<rparr>"

text \<open>A paragraph whose text has \<open>the cat sat\<close> at the offsets 10 and 200, and a
  descriptor of that text with \<open>startOffset = 12\<close> whose contexts are not in the text.\<close>

definition exCatText :: string where
  "exCatText = replicate 10 CHR ''x'' @ ''the cat sat'' @ replicate 179 CHR ''y'' @ ''the cat sat''"

definition exDocCat :: node where
  "exDocCat = plainElement ''html'' [plainElement ''body'' [plainElement ''p'' [Text exCatText]]]"

definition exPositionCat :: HighlightPosition where
  "exPositionCat = \<lparr>hlText = ''the cat sat'', xpath = ''/html[1]/body[1]/p[1]'', startOffset = 12,
     endOffset = 23, beforeContext = ''zzz'', afterContext = ''zzz'', hlId = ''u4'', createdAt = 0,
     comment = None, tags = None, color = None\<rparr>"

text \<open>\<^verbatim>\<open><html><body><div id="x"></div><div id="x"></div></body></html>\<close>, and
  \<^verbatim>\<open><html><body><svg><path></path></svg></body></html>\<close> with the two elements of the
  inline SVG in the SVG namespace.\<close>

definition exDocDup :: node where
  "exDocDup = plainElement ''html'' [plainElement ''body''
      [Element \<lparr>htmlNamespace = True, localName = ''div'', idAttr = ''x'', className = [],
                dataHighlightId = None\<rparr> [],
       Element \<lparr>htmlNamespace = True, localName = ''div'', idAttr = ''x'', className = [],
                dataHighlightId = None\<rparr> []]]"

definition exDocSvg :: node where
  "exDocSvg = plainElement ''html'' [plainElement ''body''
      [Element \<lparr>htmlNamespace = False, localName = ''svg'', idAttr = [], className = [],
                dataHighlightId = None\<rparr>
         [Element \<lparr>htmlNamespace = False, localName = ''path'', idAttr = [], className = [],
                   dataHighlightId = None\<rparr> []]]]"

lemma take_eq_length_le: "take (length p) xs = p \<Longrightarrow> length p \<le> length xs"
proof -
  assume a: "take (length p) xs = p"
  have "length (take (length p) xs) = min (length p) (length xs)" by simp
  with a show ?thesis by simp
qed

lemma findFrom_bounds:
  "findFrom pat s k = - 1 \<or> (int k \<le> findFrom pat s k \<and> findFrom pat s k \<le> int k + int (length s))"
  by (induction pat s k rule: findFrom.induct) auto

lemma findFrom_found:
  assumes "findFrom pat s k = r" "r \<noteq> - 1"
  shows "take (length pat) (drop (nat r - k) s) = pat \<and> (nat r - k) + length pat \<le> length s
         \<and> (\<forall>j. j < nat r - k \<longrightarrow> take (length pat) (drop j s) \<noteq> pat)"
  using assms
proof (induction pat s k arbitrary: r rule: findFrom.induct)
  case (1 pat k)
  then show ?case by (auto split: if_splits)
next
  case (2 pat c cs k)
  show ?case
  proof (cases "take (length pat) (c # cs) = pat")
    case True
    with 2 have "r = int k" by simp
    from True have "length pat \<le> length (c # cs)" by (rule take_eq_length_le)
    with True \<open>r = int k\<close> show ?thesis by simp
  next
    case False
    with 2 have r: "findFrom pat cs (Suc k) = r" by simp
    from findFrom_bounds[of pat cs "Suc k"] r 2(3) have kr: "int (Suc k) \<le> r" by auto
    from "2.IH"[OF False r 2(3)] have ih:
      "take (length pat) (drop (nat r - Suc k) cs) = pat"
      "nat r - Suc k + length pat \<le> length cs"
      "\<forall>j<nat r - Suc k. take (length pat) (drop j cs) \<noteq> pat" by auto
    from kr have eq: "nat r - k = Suc (nat r - Suc k)" by linarith
    show ?thesis
    proof (intro conjI allI impI)
      show "take (length pat) (drop (nat r - k) (c # cs)) = pat" using ih(1) eq by simp
      show "nat r - k + length pat \<le> length (c # cs)" using ih(2) eq by simp
      fix j assume "j < nat r - k"
      then show "take (length pat) (drop j (c # cs)) \<noteq> pat"
        using ih(3) eq False by (cases j) auto
    qed
  qed
qed

lemma findFrom_none:
  "findFrom pat s k = - 1 \<Longrightarrow> j \<le> length s \<Longrightarrow> take (length pat) (drop j s) \<noteq> pat"
proof (induction pat s k arbitrary: j rule: findFrom.induct)
  case (1 pat k)
  then show ?case by (auto split: if_splits)
next
  case (2 pat c cs k)
  then show ?case by (cases j) (auto split: if_splits)
qed


lemma substring_nat:
  assumes "a \<le> b"
  shows "substring s (int a) (int b) = take (b - a) (drop a s)"
proof -
  have e: "substring s (int a) (int b) = take (min b (length s) - min a (length s)) (drop (min a (length s)) s)"
    using assms unfolding substring_def jsLength_def Let_def
    by (simp add: min_def max_def nat_diff_distrib')
  show ?thesis
  proof (cases "a \<le> length s")
    case True
    then show ?thesis unfolding e by (simp add: min_def)
  next
    case False
    then show ?thesis unfolding e by (simp add: min_def)
  qed
qed

lemma substring_after_missing:
  assumes "t \<noteq> []"
  shows "substring ct (- 1 + jsLength t) (- 1 + jsLength t + 50) = take 50 (drop (length t - 1) ct)"
proof -
  from assms have l: "length t \<ge> 1" by (cases t) auto
  then have "- 1 + jsLength t = int (length t - 1)" "- 1 + jsLength t + 50 = int (length t - 1 + 50)"
    by (auto simp: jsLength_def)
  then show ?thesis using substring_nat[of "length t - 1" "length t - 1 + 50" ct] by simp
qed

lemma substring_neg: "b \<le> 0 \<Longrightarrow> a \<le> 0 \<Longrightarrow> substring s a b = []"
  unfolding substring_def Let_def jsLength_def by (simp add: min_def max_def)

lemma bpBefore_irrefl_prefix: "\<not> bpBefore (c @ p) k c 0"
  by (induction c) (cases p, auto)

lemma commonPrefix_is_prefix: "\<exists>q. p = commonPrefix p p' @ q"
  by (induction p p' rule: commonPrefix.induct) auto


section \<open>Text nodes, ranges and the marker\<close>

lemma nodeAt_append:
  "nodeAt n (p @ q) = (case nodeAt n p of None \<Rightarrow> None | Some m \<Rightarrow> nodeAt m q)"
  by (induction n p rule: nodeAt.induct) auto

lemma textNodes_valid:
  "(p, s) \<in> set (textNodes n) \<Longrightarrow> nodeAt n p = Some (Text s)"
  "(p, s) \<in> set (textNodesList i cs) \<Longrightarrow>
     \<exists>j q. p = (i + j) # q \<and> j < length cs \<and> nodeAt (cs ! j) q = Some (Text s)"
proof (induction n and i cs arbitrary: p s and p s rule: textNodes_textNodesList.induct)
  case (3 a cs)
  from "3.IH"[OF "3.prems"[simplified]] show ?case by auto
next
  case (5 i c cs)
  from "5.prems" consider q where "p = i # q" "(q, s) \<in> set (textNodes c)"
    | "(p, s) \<in> set (textNodesList (Suc i) cs)" by auto
  then show ?case
  proof cases
    case 1
    with "5.IH"(1) have "nodeAt c q = Some (Text s)" by simp
    with 1 show ?thesis by (intro exI[of _ 0] exI[of _ q]) simp
  next
    case 2
    from "5.IH"(2)[OF 2] obtain j q where "p = (Suc i + j) # q" "j < length cs"
      "nodeAt (cs ! j) q = Some (Text s)" by blast
    then show ?thesis by (intro exI[of _ "Suc j"] exI[of _ q]) simp
  qed
qed auto

lemma textNodesList_valid:
  assumes "(p, s) \<in> set (textNodesList 0 cs)"
  shows "nodeAt (Element a cs) p = Some (Text s) \<and> p \<noteq> []"
  using textNodes_valid(2)[OF assms] by auto

lemma walkerTextNodes_valid:
  assumes "(p, s) \<in> set (walkerTextNodes doc c)"
  shows "nodeAt doc p = Some (Text s)"
proof -
  from assms obtain a cs where c: "nodeAt doc c = Some (Element a cs)"
    by (cases "nodeAt doc c") (auto simp: walkerTextNodes_def split: node.splits)
  with assms obtain q where q: "p = c @ q" "(q, s) \<in> set (textNodesList 0 cs)"
    by (auto simp: walkerTextNodes_def)
  from textNodesList_valid[OF q(2), of a] c q(1) show ?thesis by (simp add: nodeAt_append)
qed

lemma locate_mem:
  assumes "locate L cur st s e = (a, b)"
  shows "(\<forall>p k. a = Some (p, k) \<longrightarrow> (st = Some (p, k) \<or> (\<exists>t. (p, t) \<in> set L)))
       \<and> (\<forall>p k. b = Some (p, k) \<longrightarrow> (\<exists>t. (p, t) \<in> set L))"
  using assms
proof (induction L cur st s e rule: locate.induct)
  case (1 cur st s e)
  then show ?case by auto
next
  case (2 p t rest cur st s e)
  show ?case
  proof (cases "cur + jsLength t \<ge> e")
    case True
    with "2.prems" show ?thesis by (auto simp: Let_def split: if_splits)
  next
    case False
    with "2.prems" have "locate rest (cur + jsLength t)
       (if st = None \<and> cur + jsLength t > s then Some (p, s - cur) else st) s e = (a, b)"
      by (simp add: Let_def)
    from "2.IH"[OF refl refl False this] show ?thesis by (auto split: if_splits)
  qed
qed

lemma buildRange_containers:
  assumes "buildRange doc p1 o1 p2 o2 = Inr r"
  shows "(startContainer r = p1 \<or> startContainer r = p2) \<and> endContainer r = p2"
  using assms
  by (auto simp: buildRange_def setStart_def setEnd_def setStartAt_def setEndAt_def createRange_def
      split: sum.splits option.splits if_splits)

lemma wrap_text_insert_ok:
  assumes "nodeAt n p1 = Some (Text s1)" "nodeAt n p2 = Some (Text s2)"
  shows "\<exists>ns. insertIn (fst (extractIn n p1 k1 p2 k2)) (fst (newBoundary p1 k1 p2))
            (snd (newBoundary p1 k1 p2)) m = Some ns
          \<and> (\<forall>a cs. n = Element a cs \<longrightarrow> (\<exists>x. ns = [x]))"
  using assms
proof (induction p1 arbitrary: n p2)
  case Nil
  then have n: "n = Text s1" by simp
  with Nil have "p2 = []" by (cases p2) auto
  with n show ?case by simp
next
  case (Cons i p1)
  then obtain a cs where n: "n = Element a cs" and i: "i < length cs"
    and c1: "nodeAt (cs ! i) p1 = Some (Text s1)"
    by (cases n) (auto split: if_splits)
  from Cons.prems(2) n obtain j q where p2: "p2 = j # q" and j: "j < length cs"
    and c2: "nodeAt (cs ! j) q = Some (Text s2)"
    by (cases p2) (auto split: if_splits)
  show ?case
  proof (cases "i = j")
    case True
    from Cons.IH[OF c1 c2[folded True]] obtain ns where
      ns: "insertIn (fst (extractIn (cs ! i) p1 k1 q k2)) (fst (newBoundary p1 k1 q))
            (snd (newBoundary p1 k1 q)) m = Some ns" by auto
    with n p2 True i show ?thesis
      by (auto simp: case_prod_beta)
  next
    case False
    with n p2 i j show ?thesis by (auto simp: case_prod_beta)
  qed
qed

lemma findFirst_None_iff:
  "findFirst P n = None \<longleftrightarrow> \<not> anyElement P n"
  "findFirstList P i cs = None \<longleftrightarrow> \<not> (\<exists>c \<in> set cs. anyElement P c)"
  by (induction P n and P i cs rule: findFirst_findFirstList.induct) (auto split: option.splits)

lemma insertIn_anyElement:
  "insertIn n p k m = Some ns \<Longrightarrow> anyElement P m \<Longrightarrow> \<exists>x \<in> set ns. anyElement P x"
proof (induction n p k m arbitrary: ns rule: insertIn.induct)
  case (3 a cs k m)
  then show ?case by auto
next
  case (4 a cs i p k m)
  then show ?case by (fastforce split: if_splits option.splits)
qed auto

lemma insertIn_length:
  "insertIn n p k m = Some ns \<Longrightarrow> \<exists>ns'. insertIn n p k m' = Some ns' \<and> length ns' = length ns"
  by (induction n p k m arbitrary: ns rule: insertIn.induct) (auto split: if_splits option.splits)

lemma insertIn_None:
  "insertIn n p k m = None \<Longrightarrow> insertIn n p k m' = None"
  using insertIn_length[of n p k m' _ m] by (cases "insertIn n p k m'") auto

lemma extractContents_collapsed:
  "extractContents doc r = (d1, f, r1) \<Longrightarrow> collapsed r1"
  by (auto simp: extractContents_def collapsed_def case_prod_beta Let_def split: if_splits)

lemma wrap_success:
  assumes "extractContents doc r = (d1, f, r1)"
    and "insertIn d1 (startContainer r1) (rangeStartOffset r1) (Element (createMark hid c) f) = Some [x]"
  shows "wrapRangeWithHighlight doc r hid c = (True, x)"
proof -
  have c1: "extractContents d1 r1 = (d1, [], r1)"
    using extractContents_collapsed[OF assms(1)] by (simp add: extractContents_def)
  from insertIn_length[OF assms(2), of "Element (createMark hid c) []"] obtain y where
    y: "insertIn d1 (startContainer r1) (rangeStartOffset r1) (Element (createMark hid c) []) = Some [y]"
    by (auto simp: length_Suc_conv)
  show ?thesis
    using assms
    by (simp add: wrapRangeWithHighlight_def surroundContents_def insertNode_def)
qed

lemma wrap_True_extract:
  assumes "wrapRangeWithHighlight doc r hid c = (True, d)"
  shows "\<exists>d1 f r1. extractContents doc r = (d1, f, r1)
           \<and> insertIn d1 (startContainer r1) (rangeStartOffset r1) (Element (createMark hid c) f) = Some [d]"
proof -
  obtain d1 f r1 where e: "extractContents doc r = (d1, f, r1)" by (cases "extractContents doc r")
  have c1: "extractContents d1 r1 = (d1, [], r1)"
    using extractContents_collapsed[OF e] by (simp add: extractContents_def)
  show ?thesis
  proof (cases "insertIn d1 (startContainer r1) (rangeStartOffset r1) (Element (createMark hid c) f)")
    case None
    from insertIn_None[OF None, of "Element (createMark hid c) []"] None assms e c1
    show ?thesis
      by (simp add: wrapRangeWithHighlight_def surroundContents_def insertNode_def split: if_splits)
  next
    case (Some ns)
    show ?thesis
    proof (cases "\<exists>x. ns = [x]")
      case True
      then obtain x where x: "ns = [x]" by blast
      from wrap_success[OF e Some[unfolded x]] assms have "d = x" by simp
      with e Some x show ?thesis by simp
    next
      case False
      from insertIn_length[OF Some, of "Element (createMark hid c) []"] obtain ns' where
        n': "insertIn d1 (startContainer r1) (rangeStartOffset r1) (Element (createMark hid c) []) = Some ns'"
        "length ns' = length ns" by blast
      have f': "\<not> (\<exists>x. ns' = [x])"
      proof
        assume "\<exists>x. ns' = [x]"
        with n'(2) have "length ns = 1" by auto
        then have "\<exists>x. ns = [x]" by (cases ns) auto
        with False show False by blast
      qed
      from assms e c1 Some False n'(1) f' show ?thesis
        by (auto simp: wrapRangeWithHighlight_def surroundContents_def insertNode_def
            split: if_splits list.splits)
    qed
  qed
qed

lemma wrap_True_inserted:
  assumes "wrapRangeWithHighlight doc r hid c = (True, d)"
  shows "\<exists>d0 p k f. insertIn d0 p k (Element (createMark hid c) f) = Some [d]"
  using wrap_True_extract[OF assms] by blast

lemma wrap_True_marked:
  assumes "wrapRangeWithHighlight doc r hid c = (True, d)"
  shows "anyElement (\<lambda>a. dataHighlightId a = Some hid) d"
proof -
  from wrap_True_inserted[OF assms] obtain d0 p k f where
    i: "insertIn d0 p k (Element (createMark hid c) f) = Some [d]" by blast
  have "anyElement (\<lambda>a. dataHighlightId a = Some hid) (Element (createMark hid c) f)"
    by (simp add: createMark_def)
  from insertIn_anyElement[OF i this] show ?thesis by simp
qed

lemma nodeAt_Element_root:
  "nodeAt doc c = Some (Element a cs) \<Longrightarrow> \<exists>a' cs'. doc = Element a' cs'"
  by (cases doc; cases c) auto

lemma wrap_text_insert_root:
  assumes "doc = Element a cs" "nodeAt doc p1 = Some (Text s1)" "nodeAt doc p2 = Some (Text s2)"
  shows "\<exists>x. insertIn (fst (extractIn doc p1 k1 p2 k2)) (fst (newBoundary p1 k1 p2))
            (snd (newBoundary p1 k1 p2)) m = Some [x]"
proof -
  from wrap_text_insert_ok[OF assms(2,3), of k1 k2 m] obtain ns where
    ns: "insertIn (fst (extractIn doc p1 k1 p2 k2)) (fst (newBoundary p1 k1 p2))
            (snd (newBoundary p1 k1 p2)) m = Some ns"
    and sg: "\<forall>a cs. doc = Element a cs \<longrightarrow> (\<exists>x. ns = [x])" by (elim exE conjE)
  from sg assms(1) obtain x where "ns = [x]" by (elim allE impE exE)
  with ns show ?thesis by (intro exI[of _ x]) simp
qed

lemma insertIn_text_ok:
  "nodeAt n p = Some (Text s) \<Longrightarrow> \<exists>ns. insertIn n p k m = Some ns"
  by (induction n p k m rule: insertIn.induct) (auto split: if_splits)

lemma insertIn_root_single:
  "insertIn (Element a cs) p k m = Some ns \<Longrightarrow> \<exists>x. ns = [x]"
  by (cases p) (auto split: if_splits option.splits)

lemma wrap_located_ok:
  assumes loc: "locate (walkerTextNodes doc c) 0 None s e = (Some (p1, o1), Some (p2, o2))"
    and br: "buildRange doc p1 o1 p2 o2 = Inr r"
  shows "\<exists>d. wrapRangeWithHighlight doc r hid col = (True, d)"
proof -
  from locate_mem[OF loc] obtain t1 t2 where
    m: "(p1, t1) \<in> set (walkerTextNodes doc c)" "(p2, t2) \<in> set (walkerTextNodes doc c)" by auto
  then have v: "nodeAt doc p1 = Some (Text t1)" "nodeAt doc p2 = Some (Text t2)"
    by (auto dest: walkerTextNodes_valid)
  from m(1) obtain a cs where "nodeAt doc c = Some (Element a cs)"
    by (cases "nodeAt doc c") (auto simp: walkerTextNodes_def split: node.splits)
  from nodeAt_Element_root[OF this] obtain a' cs' where doc: "doc = Element a' cs'" by (elim exE)
  from buildRange_containers[OF br] have
    sc: "startContainer r = p1 \<or> startContainer r = p2" and ec: "endContainer r = p2" by simp_all
  from sc v obtain u1 where u1: "nodeAt doc (startContainer r) = Some (Text u1)" by (elim disjE) simp_all
  from ec v have u2: "nodeAt doc (endContainer r) = Some (Text t2)" by simp
  obtain d1 f r1 where e: "extractContents doc r = (d1, f, r1)" by (cases "extractContents doc r")
  have "\<exists>x. insertIn d1 (startContainer r1) (rangeStartOffset r1) (Element (createMark hid col) f) = Some [x]"
  proof (cases "collapsed r")
    case True
    with e have "d1 = doc" "r1 = r" by (simp_all add: extractContents_def)
    with insertIn_text_ok[OF u1] insertIn_root_single doc show ?thesis by metis
  next
    case False
    with e have d1: "d1 = fst (extractIn doc (startContainer r) (rangeStartOffset r) (endContainer r) (rangeEndOffset r))"
      and f: "f = snd (extractIn doc (startContainer r) (rangeStartOffset r) (endContainer r) (rangeEndOffset r))"
      and r1: "startContainer r1 = fst (newBoundary (startContainer r) (rangeStartOffset r) (endContainer r))"
        "rangeStartOffset r1 = snd (newBoundary (startContainer r) (rangeStartOffset r) (endContainer r))"
      by (auto simp: extractContents_def case_prod_beta Let_def)
    from wrap_text_insert_root[OF doc u1 u2, of "rangeStartOffset r" "rangeEndOffset r"
        "Element (createMark hid col) f"]
    show ?thesis unfolding d1 r1 .
  qed
  then obtain x where
    "insertIn d1 (startContainer r1) (rangeStartOffset r1) (Element (createMark hid col) f) = Some [x]"
    by (elim exE)
  from wrap_success[OF e this] show ?thesis by (intro exI)
qed

lemma byContext_result:
  assumes "applyHighlightByContext doc c pos = Some (t, d)"
  shows "(t = None \<and> d = doc) \<or>
         (\<exists>tr r. t = Some tr \<and> wrapRangeWithHighlight doc r (hlId pos) (colorOrYellow pos) = (True, d))"
proof (cases "nodeAt doc c")
  case None
  with assms show ?thesis by (simp add: applyHighlightByContext_def)
next
  case (Some cn)
  show ?thesis
  proof (cases "contextTextStart (textContent cn) pos")
    case None
    with assms Some show ?thesis by (simp add: applyHighlightByContext_def)
  next
    case outer: (Some o1)
    show ?thesis
    proof (cases o1)
      case None
      with assms Some outer show ?thesis by (simp add: applyHighlightByContext_def)
    next
      case (Some tts)
      obtain tr textStart where tts: "tts = (tr, textStart)" by (cases tts)
      obtain a b where loc: "locate (walkerTextNodes doc c) 0 None textStart
                       (textStart + jsLength (hlText pos)) = (a, b)" by (cases "locate (walkerTextNodes doc c) 0 None textStart
                       (textStart + jsLength (hlText pos))")
      show ?thesis
      proof (cases "\<exists>p1 o1 p2 o2. a = Some (p1, o1) \<and> b = Some (p2, o2)")
        case False
        with assms \<open>nodeAt doc c = Some cn\<close> outer Some tts loc show ?thesis
          by (auto simp: applyHighlightByContext_def split: option.splits)
      next
        case True
        then obtain p1 k1 p2 k2 where ab: "a = Some (p1, k1)" "b = Some (p2, k2)" by blast
        show ?thesis
        proof (cases "buildRange doc p1 k1 p2 k2")
          case (Inl e)
          with assms \<open>nodeAt doc c = Some cn\<close> outer Some tts loc ab show ?thesis
            by (simp add: applyHighlightByContext_def)
        next
          case (Inr r)
          from wrap_located_ok[OF loc[unfolded ab] Inr, of "hlId pos" "colorOrYellow pos"] obtain d' where
            w: "wrapRangeWithHighlight doc r (hlId pos) (colorOrYellow pos) = (True, d')" by blast
          with assms \<open>nodeAt doc c = Some cn\<close> outer Some tts loc ab Inr show ?thesis
            by (auto simp: applyHighlightByContext_def)
        qed
      qed
    qed
  qed
qed

section \<open>Resolution\<close>

lemma applyHighlight_result:
  assumes "applyHighlight doc pos = Some (Inr (t, d))"
  shows "(t = None \<and> d = doc) \<or>
         (t = Some AlreadyMarked \<and> d = doc \<and> anyElement (\<lambda>a. dataHighlightId a = Some (hlId pos)) doc) \<or>
         (\<exists>tr r. t = Some tr \<and> wrapRangeWithHighlight doc r (hlId pos) (colorOrYellow pos) = (True, d))"
proof -
  from assms obtain q where qs: "querySelectorHighlight doc (hlId pos) = Some (Inr q)"
    by (auto simp: applyHighlight_def split: option.splits sum.splits)
  show ?thesis
  proof (cases q)
    case (Some m)
    with qs have "findFirst (\<lambda>a. dataHighlightId a = Some (hlId pos)) doc \<noteq> None"
      by (auto simp: querySelectorHighlight_def split: if_splits)
    then have "anyElement (\<lambda>a. dataHighlightId a = Some (hlId pos)) doc"
      by (simp add: findFirst_None_iff)
    with assms qs Some show ?thesis by (simp add: applyHighlight_def)
  next
    case None
    note q = qs[unfolded None]
    show ?thesis
    proof (cases "getElementByXPath doc (xpath pos)")
      case None
      with assms q obtain body where "applyHighlightByContext doc body pos = Some (t, d)"
        by (auto simp: applyHighlight_def split: option.splits)
      from byContext_result[OF this] show ?thesis by blast
    next
      case (Some c)
      obtain a b where loc: "locate (walkerTextNodes doc c) 0 None (startOffset pos) (endOffset pos) = (a, b)"
        by (cases "locate (walkerTextNodes doc c) 0 None (startOffset pos) (endOffset pos)")
      show ?thesis
      proof (cases "\<exists>p1 o1 p2 o2. a = Some (p1, o1) \<and> b = Some (p2, o2)")
        case False
        with assms q Some loc have "applyHighlightByContext doc c pos = Some (t, d)"
          by (auto simp: applyHighlight_def split: option.splits)
        from byContext_result[OF this] show ?thesis by blast
      next
        case True
        then obtain p1 k1 p2 k2 where ab: "a = Some (p1, k1)" "b = Some (p2, k2)" by blast
        show ?thesis
        proof (cases "buildRange doc p1 k1 p2 k2")
          case (Inl e)
          with assms q Some loc ab have "applyHighlightByContext doc c pos = Some (t, d)"
            by (auto simp: applyHighlight_def)
          from byContext_result[OF this] show ?thesis by blast
        next
          case (Inr r)
          show ?thesis
          proof (cases "rangeToString doc r \<noteq> hlText pos")
            case True
            with assms q Some loc ab Inr have "applyHighlightByContext doc c pos = Some (t, d)"
              by (auto simp: applyHighlight_def)
            from byContext_result[OF this] show ?thesis by blast
          next
            case False
            from wrap_located_ok[OF loc[unfolded ab] Inr, of "hlId pos" "colorOrYellow pos"] obtain d' where
              w: "wrapRangeWithHighlight doc r (hlId pos) (colorOrYellow pos) = (True, d')" by (elim exE)
            with assms q Some loc ab Inr False show ?thesis
              by (auto simp: applyHighlight_def)
          qed
        qed
      qed
    qed
  qed
qed

text \<open>
  C3. Whenever \<open>applyHighlight\<close> answers \<open>false\<close>, the document is exactly the one it
  was called on: no marker was inserted, and nothing was extracted or moved.
\<close>

theorem resolve_failure_atomic:
  assumes "applyHighlight doc position = Some (Inr (None, doc'))"
  shows "doc' = doc"
  using applyHighlight_result[OF assms] by auto

theorem resolve_failure_atomic_witness:
  "applyHighlight exDoc exPositionAbsent = Some (Inr (None, exDoc))"
proof -
  have "(case applyHighlight exDoc exPositionAbsent of Some (Inr (None, d)) \<Rightarrow> True | _ \<Rightarrow> False)"
    by code_simp
  then obtain d where d: "applyHighlight exDoc exPositionAbsent = Some (Inr (None, d))"
    by (auto split: option.splits sum.splits)
  from resolve_failure_atomic[OF d] d show ?thesis by simp
qed

lemma selectorSafe_chars:
  "selectorSafe v \<Longrightarrow>
   CHR 0x22 \<notin> set v \<and> CHR 0x5C \<notin> set v \<and> CHR 0x0A \<notin> set v \<and> CHR 0x0C \<notin> set v
   \<and> CHR 0x0D \<notin> set v \<and> CHR 0x00 \<notin> set v"
  by (auto simp: selectorSafe_def list_all_iff)

lemma querySelector_safe:
  "selectorSafe v \<Longrightarrow>
   querySelectorHighlight doc v = Some (Inr (findFirst (\<lambda>a. dataHighlightId a = Some v) doc))"
  using selectorSafe_chars[of v] by (simp add: querySelectorHighlight_def)

text \<open>The ids the program makes are those of \<open>crypto.randomUUID()\<close>: hexadecimal digits
  and hyphens.\<close>

lemma uuid_selectorSafe:
  "list_all (\<lambda>c. isHexDigit c \<or> c = CHR ''-'') v \<Longrightarrow> selectorSafe v"
  by (auto simp: selectorSafe_def list_all_iff isHexDigit_def Let_def)

lemma applyHighlight_marked:
  assumes "selectorSafe (hlId pos)" "anyElement (\<lambda>a. dataHighlightId a = Some (hlId pos)) doc"
  shows "applyHighlight doc pos = Some (Inr (Some AlreadyMarked, doc))"
proof -
  from assms(2) have "findFirst (\<lambda>a. dataHighlightId a = Some (hlId pos)) doc \<noteq> None"
    by (simp add: findFirst_None_iff)
  then show ?thesis
    by (auto simp: applyHighlight_def querySelector_safe[OF assms(1)])
qed

text \<open>
  C6. For a descriptor whose id is free of the characters that are special in a CSS string
  (double quote, backslash, line breaks, U+0000), as every id of \<open>crypto.randomUUID()\<close>
  is: when an element with that id as its \<open>data-highlight-id\<close> is in the document,
  \<open>applyHighlight\<close> answers \<open>true\<close> at once and leaves the document as it is, without
  a second marker; and after a call that answered \<open>true\<close>, a second call with the same
  descriptor on the resulting document answers \<open>true\<close> by that check and changes nothing.
\<close>

theorem resolve_idempotent:
  assumes safe: "selectorSafe (hlId position)"
  shows "(anyElement (\<lambda>a. dataHighlightId a = Some (hlId position)) doc
            \<longrightarrow> applyHighlight doc position = Some (Inr (Some AlreadyMarked, doc)))
       \<and> (\<forall>t doc'. applyHighlight doc position = Some (Inr (Some t, doc'))
            \<longrightarrow> applyHighlight doc' position = Some (Inr (Some AlreadyMarked, doc')))"
proof (intro conjI allI impI)
  assume "anyElement (\<lambda>a. dataHighlightId a = Some (hlId position)) doc"
  with safe show "applyHighlight doc position = Some (Inr (Some AlreadyMarked, doc))"
    by (rule applyHighlight_marked)
next
  fix t doc' assume a: "applyHighlight doc position = Some (Inr (Some t, doc'))"
  have "anyElement (\<lambda>a. dataHighlightId a = Some (hlId position)) doc'"
    using applyHighlight_result[OF a] wrap_True_marked by auto
  from applyHighlight_marked[OF safe this]
  show "applyHighlight doc' position = Some (Inr (Some AlreadyMarked, doc'))" .
qed

theorem resolve_idempotent_witness:
  "selectorSafe (hlId exPosition)
   \<and> (\<exists>t d. applyHighlight exDoc exPosition = Some (Inr (Some t, d))
          \<and> applyHighlight d exPosition = Some (Inr (Some AlreadyMarked, d)))"
proof -
  have safe: "selectorSafe (hlId exPosition)" by code_simp
  have "(case applyHighlight exDoc exPosition of Some (Inr (Some t, d)) \<Rightarrow> True | _ \<Rightarrow> False)"
    by code_simp
  then obtain t d where d: "applyHighlight exDoc exPosition = Some (Inr (Some t, d))"
    by (auto split: option.splits sum.splits)
  from resolve_idempotent[OF safe, of exDoc] d
  have "applyHighlight d exPosition = Some (Inr (Some AlreadyMarked, d))" by blast
  with safe d show ?thesis by blast
qed

section \<open>The closest occurrence\<close>

lemma occursAt_drop:
  assumes "start \<le> nat j" "0 \<le> j"
  shows "occursAt s pat j \<longleftrightarrow>
         (take (length pat) (drop (nat j - start) (drop start s)) = pat \<and> nat j + length pat \<le> length s)"
  using assms by (auto simp: occursAt_def)

lemma indexOf_found:
  assumes r: "indexOf s pat from = r" and nz: "r \<noteq> - 1" and ne: "pat \<noteq> []"
  shows "occursAt s pat r \<and> from \<le> r \<and> (\<forall>j. from \<le> j \<and> j < r \<longrightarrow> \<not> occursAt s pat j)"
proof -
  define start where "start = nat (min (max from 0) (jsLength s))"
  have f: "findFrom pat (drop start s) start = r" using r by (simp add: indexOf_def start_def Let_def)
  from findFrom_bounds[of pat "drop start s" start] f nz have b: "int start \<le> r" by auto
  from findFrom_found[OF f nz] have
    t: "take (length pat) (drop (nat r - start) (drop start s)) = pat"
    and l: "nat r - start + length pat \<le> length (drop start s)"
    and m: "\<forall>j<nat r - start. take (length pat) (drop j (drop start s)) \<noteq> pat" by auto
  have sl: "start \<le> length s" by (simp add: start_def jsLength_def)
  from b have r0: "0 \<le> r" by linarith
  have o: "occursAt s pat r"
    using t l b sl r0 by (simp add: occursAt_drop[of start r])
  from o ne have "r < int (length s)" by (cases pat) (auto simp: occursAt_def)
  then have fr: "from \<le> r" using b by (simp add: start_def jsLength_def)
  have "\<not> occursAt s pat j" if j: "from \<le> j" "j < r" for j
  proof
    assume oj: "occursAt s pat j"
    then have j0: "0 \<le> j" and jl: "nat j + length pat \<le> length s" by (auto simp: occursAt_def)
    have sj: "start \<le> nat j" using j(1) j0 jl by (simp add: start_def jsLength_def)
    from oj j0 sj have "take (length pat) (drop (nat j - start) (drop start s)) = pat"
      by (simp add: occursAt_drop[of start j])
    moreover have "nat j - start < nat r - start" using j(2) sj j0 by linarith
    ultimately show False using m by blast
  qed
  with o fr show ?thesis by blast
qed

lemma indexOf_none:
  assumes r: "indexOf s pat from = - 1" and j: "from \<le> j"
  shows "\<not> occursAt s pat j"
proof
  assume oj: "occursAt s pat j"
  define start where "start = nat (min (max from 0) (jsLength s))"
  have f: "findFrom pat (drop start s) start = - 1" using r by (simp add: indexOf_def start_def Let_def)
  from oj have j0: "0 \<le> j" and jl: "nat j + length pat \<le> length s" by (auto simp: occursAt_def)
  have sj: "start \<le> nat j" using j j0 jl by (simp add: start_def jsLength_def)
  from oj j0 sj have "take (length pat) (drop (nat j - start) (drop start s)) = pat"
    by (simp add: occursAt_drop[of start j])
  moreover have "nat j - start \<le> length (drop start s)" using jl by simp
  ultimately show False using findFrom_none[OF f] by blast
qed

lemma occursAt_le_length: "occursAt s pat j \<Longrightarrow> j \<le> int (length s)"
  by (auto simp: occursAt_def)

lemma occurrencesFrom_none:
  assumes "\<forall>j. int lo \<le> j \<longrightarrow> \<not> occursAt s pat j"
  shows "occurrencesFrom s pat lo = []"
  using assms by (auto simp: occurrencesFrom_def filter_empty_conv simp del: upt_Suc)

lemma occurrencesFrom_first:
  assumes o: "occursAt s pat (int r)" and fr: "lo \<le> r"
    and m: "\<forall>j. int lo \<le> j \<and> j < int r \<longrightarrow> \<not> occursAt s pat j"
  shows "occurrencesFrom s pat lo = int r # occurrencesFrom s pat (Suc r)"
proof -
  from occursAt_le_length[OF o] have rl: "r \<le> length s" by simp
  have "[lo..<Suc (length s)] = [lo..<r] @ [r..<Suc (length s)]"
    using upt_add_eq_append[of lo r "Suc (length s) - r"] fr rl by simp
  moreover have "[r..<Suc (length s)] = r # [Suc r..<Suc (length s)]"
    using rl by (simp add: upt_conv_Cons del: upt_Suc)
  moreover have "filter (occursAt s pat) (map int [lo..<r]) = []"
    using m by (auto simp: filter_empty_conv)
  ultimately show ?thesis using o by (simp add: occurrencesFrom_def del: upt_Suc)
qed

lemma collectMatches_occurrences:
  assumes "pat \<noteq> []"
  shows "collectMatches s pat (int lo) acc = Some (acc @ occurrencesFrom s pat lo)"
proof (induction "Suc (length s) - lo" arbitrary: lo acc rule: less_induct)
  case less
  show ?case
  proof (cases "indexOf s pat (int lo) = - 1")
    case True
    from indexOf_none[OF True] have "occurrencesFrom s pat lo = []"
      by (intro occurrencesFrom_none) blast
    with True show ?thesis by (subst collectMatches.simps) simp
  next
    case False
    define r where "r = indexOf s pat (int lo)"
    from indexOf_found[OF r_def[symmetric] _ assms] False r_def have
      o: "occursAt s pat r" and fr: "int lo \<le> r"
      and m: "\<forall>j. int lo \<le> j \<and> j < r \<longrightarrow> \<not> occursAt s pat j" by auto
    from fr have r0: "0 \<le> r" by linarith
    then obtain rn where rn: "r = int rn" by (metis nat_0_le)
    from o assms rn have rl: "rn < length s" by (cases pat) (auto simp: occursAt_def)
    from fr rn have frn: "lo \<le> rn" by simp
    have dec: "Suc (length s) - Suc rn < Suc (length s) - lo" using rl frn by linarith
    have step: "collectMatches s pat (int lo) acc = collectMatches s pat (int (Suc rn)) (acc @ [int rn])"
      using False r_def rn by (subst collectMatches.simps) (simp add: Let_def add.commute)
    from occurrencesFrom_first[OF o[unfolded rn] frn] m rn
    have "occurrencesFrom s pat lo = int rn # occurrencesFrom s pat (Suc rn)" by simp
    with less[OF dec, of "acc @ [int rn]"] step show ?thesis by simp
  qed
qed

lemma occurrencesFrom_set:
  "set (occurrencesFrom s pat 0) = {k. occursAt s pat k}"
proof -
  have "k \<in> int ` {0..<Suc (length s)}" if "occursAt s pat k" for k
  proof -
    from that have "0 \<le> k" "nat k \<le> length s" by (auto simp: occursAt_def)
    then show ?thesis by (intro image_eqI[of _ _ "nat k"]) auto
  qed
  then show ?thesis by (auto simp: occurrencesFrom_def simp del: upt_Suc)
qed

lemma occurrencesFrom_sorted: "sorted (occurrencesFrom s pat lo)"
proof -
  have "sorted (map int [lo..<Suc (length s)])"
    by (simp add: sorted_map sorted_wrt_iff_nth_less del: upt_Suc)
  then show ?thesis unfolding occurrencesFrom_def by (rule sorted_filter[where f = id, simplified])
qed

lemma closer_fold:
  assumes "sorted (x # xs)"
  shows "foldl (closer s) x xs \<in> set (x # xs)
       \<and> (\<forall>k \<in> set (x # xs). \<bar>foldl (closer s) x xs - s\<bar> \<le> \<bar>k - s\<bar>
              \<and> (\<bar>k - s\<bar> = \<bar>foldl (closer s) x xs - s\<bar> \<longrightarrow> foldl (closer s) x xs \<le> k))"
  using assms
proof (induction xs rule: rev_induct)
  case Nil
  then show ?case by simp
next
  case (snoc y ys)
  from snoc.prems have s1: "sorted (x # ys)" and le: "\<forall>k \<in> set (x # ys). k \<le> y"
    by (auto simp: sorted_append)
  define r where "r = foldl (closer s) x ys"
  from snoc.IH[OF s1] have ih: "r \<in> set (x # ys)"
    "\<forall>k \<in> set (x # ys). \<bar>r - s\<bar> \<le> \<bar>k - s\<bar> \<and> (\<bar>k - s\<bar> = \<bar>r - s\<bar> \<longrightarrow> r \<le> k)"
    unfolding r_def by auto
  have f: "foldl (closer s) x (ys @ [y]) = closer s r y" by (simp add: r_def)
  show ?case
  proof (cases "\<bar>y - s\<bar> < \<bar>r - s\<bar>")
    case True
    then have c: "closer s r y = y" by (simp add: closer_def)
    show ?thesis unfolding f c using True ih(2) le by fastforce
  next
    case False
    then have c: "closer s r y = r" by (simp add: closer_def)
    from ih(1) le have "r \<le> y" by blast
    then show ?thesis unfolding f c using False ih by auto
  qed
qed

lemma textNodes_concat:
  "concat (map snd (textNodes n)) = descendantText n"
  "concat (map snd (textNodesList i cs)) = concat (map descendantText cs)"
  by (induction n and i cs rule: textNodes_textNodesList.induct)
     (auto simp: comp_def case_prod_beta)

lemma length_concat_take_le:
  "length (concat (map f (take k cs))) \<le> length (concat (map f (take (k + m) cs)))"
proof -
  have "take (k + m) cs = take k cs @ take m (drop k cs)" by (simp add: take_add)
  then show ?thesis by simp
qed

lemma length_concat_take_le_all:
  "length (concat (map f (take k cs))) \<le> length (concat (map f cs))"
proof -
  have "cs = take k cs @ drop k cs" by simp
  then have "concat (map f cs) = concat (map f (take k cs)) @ concat (map f (drop k cs))"
    by (metis concat_append map_append)
  then show ?thesis by simp
qed

lemma concat_take_Suc:
  "i < length cs \<Longrightarrow> concat (map f (take (Suc i) cs)) = concat (map f (take i cs)) @ f (cs ! i)"
  by (simp add: take_Suc_conv_app_nth)

lemma textBefore_length_le: "length (textBefore n p k) \<le> length (descendantText n)"
proof (induction n p k rule: textBefore.induct)
  case (3 a cs k)
  then show ?case by (simp add: length_concat_take_le_all)
next
  case (4 a cs i p k)
  show ?case
  proof (cases "i < length cs")
    case True
    from 4[OF True] have "length (concat (map descendantText (take i cs)) @ textBefore (cs ! i) p k)
        \<le> length (concat (map descendantText (take (Suc i) cs)))"
      using True by (simp add: concat_take_Suc)
    also have "\<dots> \<le> length (concat (map descendantText cs))" by (rule length_concat_take_le_all)
    finally show ?thesis using True by simp
  qed simp
qed auto

lemma textBefore_append:
  "nodeAt doc c = Some n \<Longrightarrow> textBefore doc (c @ q) k = textBefore doc c 0 @ textBefore n q k"
proof (induction doc c arbitrary: n rule: nodeAt.induct)
  case (1 n)
  then show ?case by (cases n) auto
qed (auto split: if_splits)

lemma textBefore_mono:
  "bpBefore p k q k' \<Longrightarrow> nodeAt n q \<noteq> None \<Longrightarrow>
   length (textBefore n p k) \<le> length (textBefore n q k')"
proof (induction p k q k' arbitrary: n rule: bpBefore.induct)
  case (1 o1 o2)
  then obtain m where m: "o2 = o1 + m" using less_imp_add_positive by (metis bpBefore.simps(1))
  show ?case by (cases n) (auto simp: m length_concat_take_le)
next
  case (2 o1 j q o2)
  then obtain a cs where n: "n = Element a cs" and j: "j < length cs" by (cases n) (auto split: if_splits)
  from 2 obtain m where m: "j = o1 + m" using le_Suc_ex by auto
  show ?case using n j length_concat_take_le[of descendantText o1 cs m] by (simp add: m)
next
  case (3 i p o1 o2)
  show ?case
  proof (cases n)
    case (Element a cs)
    show ?thesis
    proof (cases "i < length cs")
      case True
      from 3 obtain m where m: "o2 = Suc i + m" using less_imp_Suc_add by auto
      have "length (textBefore n (i # p) o1) \<le> length (concat (map descendantText (take (Suc i) cs)))"
        using True Element textBefore_length_le[of "cs ! i" p o1] by (simp add: concat_take_Suc)
      also have "\<dots> \<le> length (concat (map descendantText (take o2 cs)))"
        unfolding m by (rule length_concat_take_le)
      finally show ?thesis using Element by simp
    qed (simp add: Element)
  qed auto
next
  case (4 i p o1 j q o2)
  from "4.prems" obtain a cs where n: "n = Element a cs" and j: "j < length cs"
    and v: "nodeAt (cs ! j) q \<noteq> None" by (cases n) (auto split: if_splits)
  show ?case
  proof (cases "i = j")
    case True
    with 4 v show ?thesis by (simp add: n j)
  next
    case False
    with "4.prems" have ij: "i < j" by simp
    then obtain m where m: "j = Suc i + m" using less_imp_Suc_add by auto
    from ij j have i: "i < length cs" by simp
    have "length (textBefore n (i # p) o1) \<le> length (concat (map descendantText (take (Suc i) cs)))"
      using i n textBefore_length_le[of "cs ! i" p o1] by (simp add: concat_take_Suc)
    also have "\<dots> \<le> length (concat (map descendantText (take j cs)))"
      unfolding m by (rule length_concat_take_le)
    finally show ?thesis using n j by simp
  qed
qed

lemma textNodes_textBefore:
  "textNodes n = xs @ (p, t) # ys \<Longrightarrow> textBefore n p k = concat (map snd xs) @ take k t"
  "textNodesList i cs = xs @ (p, t) # ys \<Longrightarrow>
     \<exists>j q. p = (i + j) # q \<and> j < length cs
        \<and> concat (map descendantText (take j cs)) @ textBefore (cs ! j) q k
            = concat (map snd xs) @ take k t"
proof (induction n and i cs arbitrary: xs p ys and xs p ys rule: textNodes_textNodesList.induct)
  case (1 s)
  then show ?case by (auto simp: Cons_eq_append_conv)
next
  case (2 s)
  then show ?case by simp
next
  case (3 a cs)
  from "3.IH"[of xs p ys] "3.prems" obtain j q where "p = j # q" "j < length cs"
    "concat (map descendantText (take j cs)) @ textBefore (cs ! j) q k = concat (map snd xs) @ take k t"
    by auto
  then show ?case by simp
next
  case (4 i)
  then show ?case by simp
next
  case (5 i c cs)
  let ?f = "\<lambda>(p, s). (i # p, s)"
  from "5.prems" have e: "map ?f (textNodes c) @ textNodesList (Suc i) cs = xs @ (p, t) # ys" by simp
  then consider us where "map ?f (textNodes c) = xs @ (p, t) # us"
    | us where "xs = map ?f (textNodes c) @ us" "textNodesList (Suc i) cs = us @ (p, t) # ys"
    by (auto simp: append_eq_append_conv2 Cons_eq_append_conv append_eq_Cons_conv)
  then show ?case
  proof cases
    case 1
    then obtain xs1 q ys1 where t: "textNodes c = xs1 @ (q, t) # ys1" and x: "xs = map ?f xs1"
      and p: "p = i # q"
      by (auto simp: map_eq_append_conv map_eq_Cons_conv)
    from "5.IH"(1)[OF t] have "textBefore c q k = concat (map snd xs1) @ take k t" .
    moreover have "concat (map snd xs) = concat (map snd xs1)"
      unfolding x by (simp add: comp_def case_prod_beta)
    ultimately show ?thesis using p by (intro exI[of _ 0] exI[of _ q]) simp
  next
    case 2
    from "5.IH"(2)[OF 2(2)] obtain j q where j: "p = (Suc i + j) # q" "j < length cs"
      "concat (map descendantText (take j cs)) @ textBefore (cs ! j) q k = concat (map snd us) @ take k t"
      by blast
    have "concat (map snd xs) = descendantText c @ concat (map snd us)"
      unfolding 2(1) using textNodes_concat(1)[of c] by (simp add: comp_def case_prod_beta)
    with j show ?thesis by (intro exI[of _ "Suc j"] exI[of _ q]) simp
  qed
qed

lemma walker_textBefore:
  assumes c: "nodeAt doc c = Some (Element a cs)"
    and w: "walkerTextNodes doc c = xs @ (p, t) # ys"
  shows "textBefore doc p k = textBefore doc c 0 @ concat (map snd xs) @ take k t"
proof -
  let ?g = "\<lambda>(q, s). (c @ q, s)"
  from w c have "map ?g (textNodesList 0 cs) = xs @ (p, t) # ys" by (simp add: walkerTextNodes_def)
  then obtain xs1 q ys1 where t: "textNodesList 0 cs = xs1 @ (q, t) # ys1" and x: "xs = map ?g xs1"
    and p: "p = c @ q"
    by (auto simp: map_eq_append_conv map_eq_Cons_conv)
  from textNodes_textBefore(2)[OF t, of k] obtain j q' where q: "q = j # q'" "j < length cs"
    "concat (map descendantText (take j cs)) @ textBefore (cs ! j) q' k = concat (map snd xs1) @ take k t"
    by auto
  then have "textBefore (Element a cs) q k = concat (map snd xs1) @ take k t" by simp
  moreover have "concat (map snd xs) = concat (map snd xs1)"
    unfolding x by (simp add: comp_def case_prod_beta)
  ultimately show ?thesis using textBefore_append[OF c, of q k] p by simp
qed

lemma walker_concat:
  assumes "nodeAt doc c = Some (Element a cs)"
  shows "concat (map snd (walkerTextNodes doc c)) = descendantText (Element a cs)"
  using assms textNodes_concat(2)[of 0 cs]
  by (simp add: walkerTextNodes_def comp_def case_prod_beta)

lemma locate_fst_Some: "st \<noteq> None \<Longrightarrow> fst (locate L cur st s e) = st"
  by (induction L cur st s e rule: locate.induct) (auto simp: Let_def)

lemma locate_end:
  assumes "cur < e" "e \<le> cur + int (length (concat (map snd L)))"
  shows "\<exists>xs p t ys. L = xs @ (p, t) # ys
           \<and> snd (locate L cur st s e) = Some (p, e - cur - int (length (concat (map snd xs))))
           \<and> 0 < e - cur - int (length (concat (map snd xs)))
           \<and> e - cur - int (length (concat (map snd xs))) \<le> int (length t)"
  using assms
proof (induction L arbitrary: cur st)
  case Nil
  then show ?case by simp
next
  case (Cons x L)
  obtain p t where x: "x = (p, t)" by (cases x)
  show ?case
  proof (cases "cur + int (length t) \<ge> e")
    case True
    with Cons.prems x show ?thesis
      by (intro exI[of _ "[]"] exI[of _ p] exI[of _ t] exI[of _ L]) (simp add: Let_def jsLength_def)
  next
    case False
    let ?st = "if st = None \<and> s < cur + jsLength t then Some (p, s - cur) else st"
    from False Cons.prems x have pre: "cur + int (length t) < e"
      "e \<le> (cur + int (length t)) + int (length (concat (map snd L)))" by auto
    from Cons.IH[OF pre, of ?st] obtain xs p' t' ys where
      ih: "L = xs @ (p', t') # ys"
      "snd (locate L (cur + int (length t)) ?st s e)
         = Some (p', e - (cur + int (length t)) - int (length (concat (map snd xs))))"
      "0 < e - (cur + int (length t)) - int (length (concat (map snd xs)))"
      "e - (cur + int (length t)) - int (length (concat (map snd xs))) \<le> int (length t')" by blast
    have l: "locate (x # L) cur st s e = locate L (cur + int (length t)) ?st s e"
      using False x by (simp add: Let_def jsLength_def)
    show ?thesis
      using ih x unfolding l
      by (intro exI[of _ "(p, t) # xs"] exI[of _ p'] exI[of _ t'] exI[of _ ys])
         (simp add: algebra_simps)
  qed
qed

lemma locate_start:
  assumes "cur \<le> s" "s < e" "e \<le> cur + int (length (concat (map snd L)))"
  shows "\<exists>xs p t ys. L = xs @ (p, t) # ys
           \<and> fst (locate L cur None s e) = Some (p, s - cur - int (length (concat (map snd xs))))
           \<and> 0 \<le> s - cur - int (length (concat (map snd xs)))
           \<and> s - cur - int (length (concat (map snd xs))) < int (length t)"
  using assms
proof (induction L arbitrary: cur)
  case Nil
  then show ?case by simp
next
  case (Cons x L)
  obtain p t where x: "x = (p, t)" by (cases x)
  show ?case
  proof (cases "cur + int (length t) > s")
    case True
    have "fst (locate (x # L) cur None s e) = Some (p, s - cur)"
      using True x locate_fst_Some[of "Some (p, s - cur)" L "cur + int (length t)" s e]
      by (simp add: Let_def jsLength_def)
    with Cons.prems True x show ?thesis
      by (intro exI[of _ "[]"] exI[of _ p] exI[of _ t] exI[of _ L]) simp
  next
    case False
    with Cons.prems x have pre: "cur + int (length t) \<le> s"
      "e \<le> (cur + int (length t)) + int (length (concat (map snd L)))" by auto
    from Cons.IH[OF pre(1) Cons.prems(2) pre(2)] obtain xs p' t' ys where
      ih: "L = xs @ (p', t') # ys"
      "fst (locate L (cur + int (length t)) None s e)
         = Some (p', s - (cur + int (length t)) - int (length (concat (map snd xs))))"
      "0 \<le> s - (cur + int (length t)) - int (length (concat (map snd xs)))"
      "s - (cur + int (length t)) - int (length (concat (map snd xs))) < int (length t')" by blast
    have l: "locate (x # L) cur None s e = locate L (cur + int (length t)) None s e"
      using False x Cons.prems by (simp add: Let_def jsLength_def)
    show ?thesis
      using ih x unfolding l
      by (intro exI[of _ "(p, t) # xs"] exI[of _ p'] exI[of _ t'] exI[of _ ys])
         (simp add: algebra_simps)
  qed
qed

lemma take_decomp:
  assumes "T = concat (map snd (xs @ (p, t) # ys))" "j = length (concat (map snd xs)) + k" "k \<le> length t"
  shows "concat (map snd xs) @ take k t = take j T"
  using assms by simp

lemma toUint32_small: "0 \<le> x \<Longrightarrow> x < 4294967296 \<Longrightarrow> toUint32 x = nat x"
  by (simp add: toUint32_def)

lemma located_range:
  assumes c: "nodeAt doc c = Some (Element a cs)" and T: "T = descendantText (Element a cs)"
    and small: "length T < 4294967296" and k0: "0 \<le> k" and len: "0 < len"
    and fit: "nat k + len \<le> length T"
  shows "\<exists>p1 o1 p2 o2 r. locate (walkerTextNodes doc c) 0 None k (k + int len) = (Some (p1, o1), Some (p2, o2))
           \<and> buildRange doc p1 o1 p2 o2 = Inr r
           \<and> textBefore doc (startContainer r) (rangeStartOffset r) = textBefore doc c 0 @ take (nat k) T
           \<and> textBefore doc (endContainer r) (rangeEndOffset r) = textBefore doc c 0 @ take (nat k + len) T"
proof -
  let ?L = "walkerTextNodes doc c"
  have LT: "concat (map snd ?L) = T" using walker_concat[OF c] T by simp
  have e1: "k + int len \<le> 0 + int (length (concat (map snd ?L)))" using fit k0 LT by simp
  from locate_start[of 0 k "k + int len" ?L] k0 len e1 obtain xs1 p1 t1 ys1 where
    d1: "?L = xs1 @ (p1, t1) # ys1"
    and f1: "fst (locate ?L 0 None k (k + int len)) = Some (p1, k - int (length (concat (map snd xs1))))"
    and b1: "0 \<le> k - int (length (concat (map snd xs1)))"
      "k - int (length (concat (map snd xs1))) < int (length t1)" by auto
  from locate_end[of 0 "k + int len" ?L None k] k0 len e1 obtain xs2 p2 t2 ys2 where
    d2: "?L = xs2 @ (p2, t2) # ys2"
    and f2: "snd (locate ?L 0 None k (k + int len)) = Some (p2, k + int len - int (length (concat (map snd xs2))))"
    and b2: "0 < k + int len - int (length (concat (map snd xs2)))"
      "k + int len - int (length (concat (map snd xs2))) \<le> int (length t2)" by auto
  define o1 where "o1 = k - int (length (concat (map snd xs1)))"
  define o2 where "o2 = k + int len - int (length (concat (map snd xs2)))"
  have loc: "locate ?L 0 None k (k + int len) = (Some (p1, o1), Some (p2, o2))"
    using f1 f2 by (simp add: o1_def o2_def prod_eq_iff)
  have m1: "(p1, t1) \<in> set ?L" and m2: "(p2, t2) \<in> set ?L"
    using d1 d2 by (metis in_set_conv_decomp)+
  have v1: "nodeAt doc p1 = Some (Text t1)" and v2: "nodeAt doc p2 = Some (Text t2)"
    using m1 m2 by (auto dest: walkerTextNodes_valid)
  have lt1: "length t1 \<le> length T" using LT[unfolded d1] by auto
  have lt2: "length t2 \<le> length T" using LT[unfolded d2] by auto
  have u1: "toUint32 o1 = nat o1" using b1 lt1 small by (intro toUint32_small) (auto simp: o1_def)
  have u2: "toUint32 o2 = nat o2" using b2 lt2 small by (intro toUint32_small) (auto simp: o2_def)
  have tb1: "textBefore doc p1 (nat o1) = textBefore doc c 0 @ take (nat k) T"
  proof -
    have "concat (map snd xs1) @ take (nat o1) t1 = take (nat k) T"
      using b1 k0 by (intro take_decomp[OF LT[symmetric, unfolded d1]]) (auto simp: o1_def)
    with walker_textBefore[OF c d1, of "nat o1"] show ?thesis by simp
  qed
  have tb2: "textBefore doc p2 (nat o2) = textBefore doc c 0 @ take (nat k + len) T"
  proof -
    have "concat (map snd xs2) @ take (nat o2) t2 = take (nat k + len) T"
      using b2 k0 by (intro take_decomp[OF LT[symmetric, unfolded d2]]) (auto simp: o2_def)
    with walker_textBefore[OF c d2, of "nat o2"] show ?thesis by simp
  qed
  have nb: "\<not> bpBefore p2 (nat o2) p1 (nat o1)"
  proof
    assume "bpBefore p2 (nat o2) p1 (nat o1)"
    from textBefore_mono[OF this, of doc] v1
    have "length (textBefore doc p2 (nat o2)) \<le> length (textBefore doc p1 (nat o1))" by simp
    then show False unfolding tb1 tb2 using fit len by simp
  qed
  from m1 c have ne1: "p1 \<noteq> []"
    by (auto simp: walkerTextNodes_def dest: textNodesList_valid)
  then have bb: "bpBefore [] 0 p1 (nat o1)" by (cases p1) auto
  have ok1: "nat o1 \<le> length t1" and ok2: "nat o2 \<le> length t2" using b1 b2 by (auto simp: o1_def o2_def)
  define r where "r = \<lparr>startContainer = p1, rangeStartOffset = nat o1, endContainer = p2, rangeEndOffset = nat o2\<rparr>"
  have br: "buildRange doc p1 o1 p2 o2 = Inr r"
    using v1 v2 u1 u2 ok1 ok2 bb nb
    by (simp add: buildRange_def setStart_def setEnd_def setStartAt_def setEndAt_def createRange_def r_def)
  show ?thesis
    using loc br tb1 tb2 by (intro exI[of _ p1] exI[of _ o1] exI[of _ p2] exI[of _ o2] exI[of _ r]) (simp add: r_def)
qed

lemma contextTextStart_closest:
  assumes ne: "hlText pos \<noteq> []"
    and nofull: "indexOf ct (beforeContext pos @ hlText pos @ afterContext pos) 0 = - 1"
    and nopart: "indexOf ct (sliceFrom (beforeContext pos) (- 20) @ hlText pos
                     @ slice (afterContext pos) 0 20) 0 = - 1"
  shows "contextTextStart ct pos =
           Some (case occurrencesFrom ct (hlText pos) 0 of
                   [] \<Rightarrow> None
                 | x # xs \<Rightarrow> Some (ClosestOccurrence, foldl (closer (startOffset pos)) x xs))"
  using nofull nopart collectMatches_occurrences[OF ne, of ct 0 "[]"]
  by (simp add: contextTextStart_def Let_def split: list.splits)

text \<open>
  C2. In the last-resort search of \<open>applyHighlightByContext\<close>, for a descriptor with a
  non-empty text (the invariant of descriptors) and a container whose flattened text is
  shorter than \<open>2^32\<close>, when both context searches fail: if the text occurs in the
  flattened text of the container, the call answers \<open>true\<close> by the closest-occurrence
  strategy, and the range it marks starts at the occurrence \<open>k\<close> whose distance to
  \<open>startOffset\<close> is least, the lowest such occurrence when two are equally far, and holds
  exactly the text; if the text does not occur, the call answers \<open>false\<close>.
\<close>

theorem closest_occurrence:
  assumes c: "nodeAt doc container = Some (Element a cs)"
    and ct: "ct = descendantText (Element a cs)"
    and small: "length ct < 4294967296"
    and ne: "hlText position \<noteq> []"
    and nofull: "indexOf ct (beforeContext position @ hlText position @ afterContext position) 0 = - 1"
    and nopart: "indexOf ct (sliceFrom (beforeContext position) (- 20) @ hlText position
                     @ slice (afterContext position) 0 20) 0 = - 1"
  shows "if (\<exists>j. occursAt ct (hlText position) j)
         then (\<exists>k r doc'.
                 occursAt ct (hlText position) k
               \<and> (\<forall>j. occursAt ct (hlText position) j \<longrightarrow>
                     \<bar>k - startOffset position\<bar> \<le> \<bar>j - startOffset position\<bar>
                   \<and> (\<bar>j - startOffset position\<bar> = \<bar>k - startOffset position\<bar> \<longrightarrow> k \<le> j))
               \<and> applyHighlightByContext doc container position = Some (Some ClosestOccurrence, doc')
               \<and> wrapRangeWithHighlight doc r (hlId position) (colorOrYellow position) = (True, doc')
               \<and> textBefore doc (startContainer r) (rangeStartOffset r)
                    = textBefore doc container 0 @ take (nat k) ct
               \<and> rangeToString doc r = hlText position)
         else applyHighlightByContext doc container position = Some (None, doc)"
proof (cases "occurrencesFrom ct (hlText position) 0")
  case Nil
  then have no: "\<not> (\<exists>j. occursAt ct (hlText position) j)"
    using occurrencesFrom_set[of ct "hlText position"] by auto
  from contextTextStart_closest[OF ne nofull nopart] Nil
  have "contextTextStart ct position = Some None" by simp
  with c ct have "applyHighlightByContext doc container position = Some (None, doc)"
    by (simp add: applyHighlightByContext_def)
  with no show ?thesis by simp
next
  case (Cons x xs)
  define k where "k = foldl (closer (startOffset position)) x xs"
  have srt: "sorted (x # xs)" using occurrencesFrom_sorted[of ct "hlText position" 0] Cons by simp
  have st: "set (x # xs) = {j. occursAt ct (hlText position) j}"
    using occurrencesFrom_set[of ct "hlText position"] Cons by simp
  from closer_fold[OF srt, of "startOffset position"] have
    kin: "k \<in> set (x # xs)" and
    kmin: "\<forall>j \<in> set (x # xs). \<bar>k - startOffset position\<bar> \<le> \<bar>j - startOffset position\<bar>
        \<and> (\<bar>j - startOffset position\<bar> = \<bar>k - startOffset position\<bar> \<longrightarrow> k \<le> j)"
    unfolding k_def by auto
  from kin st have ko: "occursAt ct (hlText position) k" by blast
  then have k0: "0 \<le> k" and fit: "nat k + length (hlText position) \<le> length ct"
    and tk: "take (length (hlText position)) (drop (nat k) ct) = hlText position"
    by (auto simp: occursAt_def)
  from ne have len: "0 < length (hlText position)" by simp
  from located_range[OF c ct small k0 len fit] obtain p1 o1 p2 o2 r where
    loc: "locate (walkerTextNodes doc container) 0 None k (k + int (length (hlText position)))
            = (Some (p1, o1), Some (p2, o2))"
    and br: "buildRange doc p1 o1 p2 o2 = Inr r"
    and tb1: "textBefore doc (startContainer r) (rangeStartOffset r) = textBefore doc container 0 @ take (nat k) ct"
    and tb2: "textBefore doc (endContainer r) (rangeEndOffset r)
                = textBefore doc container 0 @ take (nat k + length (hlText position)) ct"
    by blast
  from wrap_located_ok[OF loc br, of "hlId position" "colorOrYellow position"] obtain d where
    w: "wrapRangeWithHighlight doc r (hlId position) (colorOrYellow position) = (True, d)" by (elim exE)
  have cts: "contextTextStart ct position = Some (Some (ClosestOccurrence, k))"
    using contextTextStart_closest[OF ne nofull nopart] Cons by (simp add: k_def)
  have app: "applyHighlightByContext doc container position = Some (Some ClosestOccurrence, d)"
    using c ct cts loc br w by (simp add: applyHighlightByContext_def jsLength_def)
  have rts: "rangeToString doc r = hlText position"
  proof -
    have "rangeToString doc r = drop (nat k) (take (nat k + length (hlText position)) ct)"
      using fit by (simp add: rangeToString_def tb1 tb2 min_def)
    also have "\<dots> = take (length (hlText position)) (drop (nat k) ct)"
      by (simp add: drop_take)
    finally show ?thesis using tk by simp
  qed
  have ex: "\<exists>j. occursAt ct (hlText position) j" using ko by blast
  have "\<exists>k r doc'.
                 occursAt ct (hlText position) k
               \<and> (\<forall>j. occursAt ct (hlText position) j \<longrightarrow>
                     \<bar>k - startOffset position\<bar> \<le> \<bar>j - startOffset position\<bar>
                   \<and> (\<bar>j - startOffset position\<bar> = \<bar>k - startOffset position\<bar> \<longrightarrow> k \<le> j))
               \<and> applyHighlightByContext doc container position = Some (Some ClosestOccurrence, doc')
               \<and> wrapRangeWithHighlight doc r (hlId position) (colorOrYellow position) = (True, doc')
               \<and> textBefore doc (startContainer r) (rangeStartOffset r)
                    = textBefore doc container 0 @ take (nat k) ct
               \<and> rangeToString doc r = hlText position"
    using ko kmin st app w tb1 rts
    by (intro exI[of _ k] exI[of _ r] exI[of _ d]) blast
  with ex show ?thesis by simp
qed

theorem closest_occurrence_witness:
  "\<exists>r doc'. applyHighlightByContext exDocCat [0, 0] exPositionCat = Some (Some ClosestOccurrence, doc')
      \<and> wrapRangeWithHighlight exDocCat r ''u4'' Yellow = (True, doc')
      \<and> textBefore exDocCat (startContainer r) (rangeStartOffset r) = replicate 10 CHR ''x''
      \<and> rangeToString exDocCat r = ''the cat sat''"
proof -
  have c: "nodeAt exDocCat [0, 0]
      = Some (Element \<lparr>htmlNamespace = True, localName = ''p'', idAttr = [], className = [], dataHighlightId = None\<rparr> [Text exCatText])"
    by (simp add: exDocCat_def plainElement_def)
  have ct: "exCatText = descendantText
      (Element \<lparr>htmlNamespace = True, localName = ''p'', idAttr = [], className = [], dataHighlightId = None\<rparr> [Text exCatText])"
    by simp
  have small: "length exCatText < 4294967296" by (simp add: exCatText_def)
  have ne: "hlText exPositionCat \<noteq> []" by (simp add: exPositionCat_def)
  have nofull: "indexOf exCatText (beforeContext exPositionCat @ hlText exPositionCat
      @ afterContext exPositionCat) 0 = - 1" by code_simp
  have nopart: "indexOf exCatText (sliceFrom (beforeContext exPositionCat) (- 20) @ hlText exPositionCat
      @ slice (afterContext exPositionCat) 0 20) 0 = - 1" by code_simp
  have o10: "occursAt exCatText (hlText exPositionCat) 10" by code_simp
  have n11: "\<not> occursAt exCatText (hlText exPositionCat) 11" by code_simp
  have n12: "\<not> occursAt exCatText (hlText exPositionCat) 12" by code_simp
  have n13: "\<not> occursAt exCatText (hlText exPositionCat) 13" by code_simp
  have n14: "\<not> occursAt exCatText (hlText exPositionCat) 14" by code_simp
  have tb0: "textBefore exDocCat [0, 0] 0 = []" by code_simp
  have t10: "take 10 exCatText = replicate 10 CHR ''x''" by code_simp
  from closest_occurrence[OF c ct small ne nofull nopart] o10
  obtain k r d where
    ko: "occursAt exCatText (hlText exPositionCat) k"
    and kmin: "\<forall>j. occursAt exCatText (hlText exPositionCat) j \<longrightarrow>
                     \<bar>k - startOffset exPositionCat\<bar> \<le> \<bar>j - startOffset exPositionCat\<bar>"
    and app: "applyHighlightByContext exDocCat [0, 0] exPositionCat = Some (Some ClosestOccurrence, d)"
    and w: "wrapRangeWithHighlight exDocCat r (hlId exPositionCat) (colorOrYellow exPositionCat) = (True, d)"
    and tb: "textBefore exDocCat (startContainer r) (rangeStartOffset r)
                    = textBefore exDocCat [0, 0] 0 @ take (nat k) exCatText"
    and rts: "rangeToString exDocCat r = hlText exPositionCat"
    by (simp split: if_splits) blast
  from kmin o10 have "\<bar>k - 12\<bar> \<le> 2" by (auto simp: exPositionCat_def)
  then have "k = 10 \<or> k = 11 \<or> k = 12 \<or> k = 13 \<or> k = 14" by linarith
  with ko n11 n12 n13 n14 have k: "k = 10" by blast
  show ?thesis
    using app w tb rts unfolding k tb0
    by (intro exI[of _ r] exI[of _ d]) (simp add: t10 exPositionCat_def colorOrYellow_def)
qed

section \<open>Wrapping and unwrapping\<close>

lemma slice3: "a \<le> b \<Longrightarrow> take a xs @ take (b - a) (drop a xs) @ drop b xs = xs"
proof -
  assume "a \<le> b"
  then have "drop b xs = drop (b - a) (drop a xs)" by simp
  then show ?thesis by (simp only: append_take_drop_id)
qed

lemma concat_slice3:
  "a \<le> b \<Longrightarrow> concat (map f (take a xs)) @ concat (map f (take (b - a) (drop a xs)))
      @ concat (map f (drop b xs)) = concat (map f xs)"
  using slice3[of a b xs] by (metis concat_append map_append)

lemma concat_nth_split:
  "i < length cs \<Longrightarrow> concat (map f (take i cs)) @ f (cs ! i) @ concat (map f (drop (Suc i) cs))
     = concat (map f cs)"
  using id_take_nth_drop[of i cs] by (metis concat.simps(2) concat_append list.simps(9) map_append)

lemma splitNode_text:
  "descendantText (fst (splitNode n p k)) @ descendantText (snd (splitNode n p k)) = descendantText n"
proof (induction n p k rule: splitNode.induct)
  case (3 a cs k)
  then show ?case using append_take_drop_id[of k cs] by (metis concat_append map_append descendantText.simps(3) splitNode.simps(3) fst_conv snd_conv)
next
  case (4 a cs i p k)
  show ?case
  proof (cases "i < length cs")
    case True
    let ?l = "fst (splitNode (cs ! i) p k)" and ?r = "snd (splitNode (cs ! i) p k)"
    have "concat (map descendantText (take i cs)) @ descendantText ?l @ descendantText ?r
            @ concat (map descendantText (drop (Suc i) cs))
        = concat (map descendantText (take i cs)) @ (descendantText ?l @ descendantText ?r)
            @ concat (map descendantText (drop (Suc i) cs))" by simp
    also have "\<dots> = concat (map descendantText cs)"
      unfolding 4[OF True] using concat_nth_split[OF True, of descendantText] .
    finally show ?thesis using True by (simp add: case_prod_beta)
  qed simp
qed auto

lemma insertIn_text:
  "insertIn n p k m = Some ns \<Longrightarrow> descendantText m = [] \<Longrightarrow>
   concat (map descendantText ns) = descendantText n"
proof (induction n p k m arbitrary: ns rule: insertIn.induct)
  case (3 a cs k m)
  then show ?case using append_take_drop_id[of k cs]
    by (auto simp del: append_take_drop_id) (metis concat_append map_append)
next
  case (4 a cs i p k m)
  then show ?case using concat_nth_split[of i cs descendantText]
    by (auto split: if_splits option.splits)
qed auto

lemma mergeText_text: "concat (map descendantText (mergeText ns)) = concat (map descendantText ns)"
proof (induction ns rule: mergeText.induct)
  case (2 s rest)
  then show ?case by (auto split: list.splits node.splits)
qed auto

lemma normalize_text: "descendantText (normalize n) = descendantText n"
proof (induction n rule: normalize.induct)
  case (1 a cs)
  have "map descendantText (map normalize cs) = map descendantText cs"
    using 1 by simp
  then show ?case by (simp add: mergeText_text del: map_map)
qed auto

lemma unwrapIn_text: "descendantText (unwrapIn n p) = descendantText n"
proof (induction n p rule: unwrapIn.induct)
  case (1 a cs i)
  show ?case
  proof (cases "i < length cs")
    case True
    show ?thesis
    proof (cases "cs ! i")
      case (Element m ms)
      have "descendantText (normalize (Element a (take i cs @ ms @ drop (Suc i) cs)))
          = concat (map descendantText (take i cs)) @ descendantText (cs ! i)
             @ concat (map descendantText (drop (Suc i) cs))"
        unfolding normalize_text using Element by simp
      with True Element show ?thesis using concat_nth_split[of i cs descendantText] by simp
    qed (use True in auto)
  qed simp
next
  case (2 a cs i j p)
  show ?case
  proof (cases "i < length cs")
    case True
    from 2[OF True] have "concat (map descendantText (cs[i := unwrapIn (cs ! i) (j # p)]))
        = concat (map descendantText (take i cs)) @ descendantText (cs ! i)
             @ concat (map descendantText (drop (Suc i) cs))"
      using True by (simp add: upd_conv_take_nth_drop)
    with True show ?thesis using concat_nth_split[of i cs descendantText] by simp
  qed simp
qed auto

lemma flat_append: "flat (xs @ ys) = flat xs @ flat ys"
  by simp

lemma seg_mid:
  assumes "a \<le> j" "j < length cs"
  shows "cs = take a cs @ take (j - a) (drop a cs) @ cs ! j # drop (Suc j) cs"
proof -
  have "take (j - a) (drop a cs) @ cs ! j # drop (Suc j) cs = drop a cs"
    using assms id_take_nth_drop[of "j - a" "drop a cs"] by (simp add: add.commute)
  then show ?thesis by simp
qed

lemma validBoundary_Cons:
  "validBoundary (Element a cs) (i # p) k \<longleftrightarrow> i < length cs \<and> validBoundary (cs ! i) p k"
  by (simp add: validBoundary_def)

lemma validBoundary_leaf:
  "validBoundary (Text s) p k \<longleftrightarrow> p = [] \<and> k \<le> length s"
  "validBoundary (Comment s) p k \<longleftrightarrow> p = [] \<and> k \<le> length s"
  by (cases p; simp add: validBoundary_def)+

lemma wrap_text_raw:
  assumes "validBoundary n ps so" "validBoundary n pe eo" "\<not> bpBefore pe eo ps so"
    and "insertIn (fst (extractIn n ps so pe eo)) (fst (newBoundary ps so pe))
           (snd (newBoundary ps so pe)) (Element A (snd (extractIn n ps so pe eo))) = Some ns"
  shows "flat ns = descendantText n"
  using assms
proof (induction ps arbitrary: n pe ns)
  case Nil
  show ?case
  proof (cases n)
    case (Text s)
    with Nil.prems have pe: "pe = []" and b: "so \<le> eo" "eo \<le> length s" "so \<le> length s"
      by (auto simp: validBoundary_leaf)
    from Nil.prems(4) Text pe b have "ns = [Text (take so s), Element A [Text (take (eo - so) (drop so s))],
        Text (drop eo s)]" by auto
    with Text slice3[OF b(1), of s] show ?thesis by simp
  next
    case (Comment s)
    with Nil.prems have "pe = []" by (auto simp: validBoundary_leaf)
    with Nil.prems(4) Comment show ?thesis by simp
  next
    case (Element a cs)
    show ?thesis
    proof (cases pe)
      case Nil
      with Nil.prems Element have b: "so \<le> eo" "eo \<le> length cs" by (auto simp: validBoundary_def)
      from Nil.prems(4) Element Nil b
      have "ns = [Element a (take so cs @ Element A (take (eo - so) (drop so cs)) # drop eo cs)]"
        by (auto simp: min_def)
      with Element concat_slice3[OF b(1), of descendantText cs] show ?thesis by simp
    next
      case (Cons j pe')
      with Nil.prems Element have b: "so \<le> j" "j < length cs"
        by (auto simp: validBoundary_Cons)
      let ?l = "fst (splitNode (cs ! j) pe' eo)" and ?r = "snd (splitNode (cs ! j) pe' eo)"
      from Nil.prems(4) Element Cons b
      have ns: "ns = [Element a (take so cs @ Element A (take (j - so) (drop so cs) @ [?l]) # ?r # drop (Suc j) cs)]"
        by (auto simp: min_def case_prod_beta)
      have "flat ns = flat (take so cs) @ flat (take (j - so) (drop so cs))
          @ (descendantText ?l @ descendantText ?r) @ flat (drop (Suc j) cs)"
        unfolding ns by simp
      also have "\<dots> = flat (take so cs @ take (j - so) (drop so cs) @ cs ! j # drop (Suc j) cs)"
        unfolding splitNode_text by simp
      also have "\<dots> = flat cs" using seg_mid[OF b] by simp
      finally show ?thesis using Element by simp
    qed
  qed
next
  case (Cons i ps)
  from Cons.prems(1) obtain a cs where n: "n = Element a cs" and i: "i < length cs"
    and v1: "validBoundary (cs ! i) ps so"
    by (cases n) (auto simp: validBoundary_leaf validBoundary_Cons)
  let ?l = "fst (splitNode (cs ! i) ps so)" and ?r = "snd (splitNode (cs ! i) ps so)"
  show ?case
  proof (cases pe)
    case Nil
    with Cons.prems n have b: "i < eo" "eo \<le> length cs" by (auto simp: validBoundary_def)
    from Cons.prems(4) n Nil b i
    have ns: "ns = [Element a (take i cs @ ?l # Element A (?r # take (eo - Suc i) (drop (Suc i) cs)) # drop eo cs)]"
      by (auto simp: min_def case_prod_beta)
    have "flat ns = flat (take i cs) @ (descendantText ?l @ descendantText ?r)
          @ flat (take (eo - Suc i) (drop (Suc i) cs)) @ flat (drop eo cs)"
      unfolding ns by simp
    also have "\<dots> = flat (take i cs) @ descendantText (cs ! i) @ flat (drop (Suc i) cs)"
    proof -
      have "take (eo - Suc i) (drop (Suc i) cs) @ drop eo cs = drop (Suc i) cs"
        using b by (metis Suc_leI append_take_drop_id drop_drop le_add_diff_inverse2)
      then have "flat (take (eo - Suc i) (drop (Suc i) cs)) @ flat (drop eo cs) = flat (drop (Suc i) cs)"
        by (metis flat_append)
      then show ?thesis unfolding splitNode_text by simp
    qed
    also have "\<dots> = flat cs" using concat_nth_split[OF i, of descendantText] .
    finally show ?thesis using n by simp
  next
    case (Cons j pe')
    from Cons.prems(2) n Cons have j: "j < length cs" and v2: "validBoundary (cs ! j) pe' eo"
      by (auto simp: validBoundary_Cons)
    show ?thesis
    proof (cases "i = j")
      case True
      from Cons.prems(3) Cons True have nb: "\<not> bpBefore pe' eo ps so" by simp
      from Cons.prems(4) n Cons True i obtain ns' where
        ns': "insertIn (fst (extractIn (cs ! i) ps so pe' eo)) (fst (newBoundary ps so pe'))
           (snd (newBoundary ps so pe')) (Element A (snd (extractIn (cs ! i) ps so pe' eo))) = Some ns'"
        and ns: "ns = [Element a (take i cs @ ns' @ drop (Suc i) cs)]"
        by (auto simp: case_prod_beta split: option.splits)
      from Cons.IH[OF v1 v2[folded True] nb ns'] have "flat ns' = descendantText (cs ! i)" .
      then have "flat ns = flat (take i cs) @ descendantText (cs ! i) @ flat (drop (Suc i) cs)"
        unfolding ns by simp
      with concat_nth_split[OF i, of descendantText] n show ?thesis by simp
    next
      case False
      with Cons.prems(3) Cons have ij: "i < j" by simp
      let ?l2 = "fst (splitNode (cs ! j) pe' eo)" and ?r2 = "snd (splitNode (cs ! j) pe' eo)"
      from Cons.prems(4) n Cons False i j
      have ns: "ns = [Element a (take i cs @ ?l # Element A (?r # take (j - Suc i) (drop (Suc i) cs) @ [?l2])
                        # ?r2 # drop (Suc j) cs)]"
        by (auto simp: min_def case_prod_beta)
      have "flat ns = flat (take i cs) @ (descendantText ?l @ descendantText ?r)
          @ flat (take (j - Suc i) (drop (Suc i) cs)) @ (descendantText ?l2 @ descendantText ?r2)
          @ flat (drop (Suc j) cs)"
        unfolding ns by simp
      also have "\<dots> = flat (take (Suc i) cs @ take (j - Suc i) (drop (Suc i) cs) @ cs ! j # drop (Suc j) cs)"
        unfolding splitNode_text using i by (simp add: take_Suc_conv_app_nth)
      also have "\<dots> = flat cs" using seg_mid[of "Suc i" j cs] ij j by simp
      finally show ?thesis using n by simp
    qed
  qed
qed

lemma wrap_text:
  assumes w: "wrapRangeWithHighlight doc r hid c = (True, d)" and v: "validRange doc r"
  shows "flat [d] = descendantText doc"
proof -
  from wrap_True_extract[OF w] obtain d1 f r1 where e: "extractContents doc r = (d1, f, r1)"
    and i: "insertIn d1 (startContainer r1) (rangeStartOffset r1) (Element (createMark hid c) f) = Some [d]"
    by blast
  show ?thesis
  proof (cases "collapsed r")
    case True
    with e have "d1 = doc" "f = []" by (simp_all add: extractContents_def)
    with insertIn_text[OF i] show ?thesis by simp
  next
    case False
    with e have d1: "d1 = fst (extractIn doc (startContainer r) (rangeStartOffset r) (endContainer r) (rangeEndOffset r))"
      and f: "f = snd (extractIn doc (startContainer r) (rangeStartOffset r) (endContainer r) (rangeEndOffset r))"
      and r1: "startContainer r1 = fst (newBoundary (startContainer r) (rangeStartOffset r) (endContainer r))"
        "rangeStartOffset r1 = snd (newBoundary (startContainer r) (rangeStartOffset r) (endContainer r))"
      by (auto simp: extractContents_def case_prod_beta Let_def)
    from v have vb: "validBoundary doc (startContainer r) (rangeStartOffset r)"
      "validBoundary doc (endContainer r) (rangeEndOffset r)"
      "\<not> bpBefore (endContainer r) (rangeEndOffset r) (startContainer r) (rangeStartOffset r)"
      by (simp_all add: validRange_def)
    from wrap_text_raw[OF vb i[unfolded d1 f r1]] show ?thesis .
  qed
qed

lemma extractIn_local:
  "nodeAt doc p = Some c \<Longrightarrow>
   extractIn doc (p @ ps) so (p @ pe) eo
     = (replaceAt doc p (fst (extractIn c ps so pe eo)), snd (extractIn c ps so pe eo))"
proof (induction doc p arbitrary: c rule: nodeAt.induct)
  case (1 n)
  then show ?case by simp
next
  case (2 a cs i p)
  then show ?case by (auto simp: case_prod_beta split: if_splits)
qed auto

lemma newBoundary_local:
  "newBoundary (p @ ps) so (p @ pe) = (p @ fst (newBoundary ps so pe), snd (newBoundary ps so pe))"
  by (induction p) (auto simp: case_prod_beta)

lemma bpBefore_local: "bpBefore (p @ q) k (p @ q') k' = bpBefore q k q' k'"
  by (induction p) auto

lemma validBoundary_local:
  "nodeAt doc p = Some c \<Longrightarrow> validBoundary doc (p @ q) k = validBoundary c q k"
  by (simp add: validBoundary_def nodeAt_append)

lemma replaceAt_same: "nodeAt doc p = Some c \<Longrightarrow> replaceAt doc p c = doc"
  by (induction doc p arbitrary: c rule: nodeAt.induct) (auto split: if_splits)

lemma replaceAt_shape:
  "nodeAt n p = Some c0 \<Longrightarrow> \<exists>a' cs'. replaceAt n p (Element a cs) = Element a' cs'"
  by (cases p; cases n) (auto split: if_splits)

lemma insertIn_local:
  "nodeAt doc p = Some c0 \<Longrightarrow> insertIn (replaceAt doc p (Element a cs)) (p @ q) k m = Some [d] \<Longrightarrow>
   \<exists>x. insertIn (Element a cs) q k m = Some [x] \<and> d = replaceAt doc p x"
proof (induction doc p arbitrary: c0 d rule: nodeAt.induct)
  case (1 n)
  then show ?case by simp
next
  case (2 b bs i p)
  from "2.prems"(1) have i: "i < length bs" and c0: "nodeAt (bs ! i) p = Some c0"
    by (auto split: if_splits)
  from "2.prems"(2) i obtain ns where
    ns: "insertIn (replaceAt (bs ! i) p (Element a cs)) (p @ q) k m = Some ns"
    and d: "d = Element b (take i bs @ ns @ drop (Suc i) bs)"
    by (auto split: option.splits)
  from replaceAt_shape[OF c0, of a cs] obtain a' cs' where
    "replaceAt (bs ! i) p (Element a cs) = Element a' cs'" by blast
  with ns insertIn_root_single[of a' cs' "p @ q" k m ns] obtain y where y: "ns = [y]" by auto
  from "2.IH"[OF i c0 ns[unfolded y]] obtain x where
    x: "insertIn (Element a cs) q k m = Some [x]" "y = replaceAt (bs ! i) p x" by blast
  from d y x i have "d = replaceAt (Element b bs) (i # p) x"
    by (simp add: upd_conv_take_nth_drop)
  with x show ?case by blast
qed auto

lemma extractIn_Element:
  "\<exists>cs'. fst (extractIn (Element a cs) ps so pe eo) = Element a cs'"
  by (cases ps; cases pe) (auto simp: case_prod_beta)

lemma wrap_local:
  assumes c: "nodeAt doc p = Some (Element b bs)"
    and s: "startContainer r = p @ ps" and e: "endContainer r = p @ pe"
    and w: "wrapRangeWithHighlight doc r hid col = (True, d)"
  shows "\<exists>x. wrapRangeWithHighlight (Element b bs) (r\<lparr>startContainer := ps, endContainer := pe\<rparr>) hid col
            = (True, x) \<and> d = replaceAt doc p x"
proof -
  let ?r = "r\<lparr>startContainer := ps, endContainer := pe\<rparr>"
  from wrap_True_extract[OF w] obtain d1 f r1 where ex: "extractContents doc r = (d1, f, r1)"
    and i: "insertIn d1 (startContainer r1) (rangeStartOffset r1) (Element (createMark hid col) f) = Some [d]"
    by blast
  have col: "collapsed ?r = collapsed r" using s e by (simp add: collapsed_def)
  obtain c1 f' r1' where ex': "extractContents (Element b bs) ?r = (c1, f', r1')"
    by (cases "extractContents (Element b bs) ?r")
  have rel: "d1 = replaceAt doc p c1 \<and> f' = f \<and> startContainer r1 = p @ startContainer r1'
      \<and> rangeStartOffset r1 = rangeStartOffset r1'"
  proof (cases "collapsed r")
    case True
    with ex ex' col s show ?thesis
      using replaceAt_same[OF c] by (auto simp: extractContents_def)
  next
    case False
    with ex ex' col s e show ?thesis
      using extractIn_local[OF c, of ps "rangeStartOffset r" pe "rangeEndOffset r"]
        newBoundary_local[of p ps "rangeStartOffset r" pe]
      by (auto simp: extractContents_def case_prod_beta Let_def)
  qed
  obtain cs' where c1: "c1 = Element b cs'"
  proof (cases "collapsed r")
    case True
    with ex' col have "c1 = Element b bs" by (simp add: extractContents_def)
    then show ?thesis using that by blast
  next
    case False
    with ex' col have "c1 = fst (extractIn (Element b bs) ps (rangeStartOffset r) pe (rangeEndOffset r))"
      by (auto simp: extractContents_def case_prod_beta Let_def)
    with extractIn_Element[of b bs ps "rangeStartOffset r" pe "rangeEndOffset r"] that show ?thesis by auto
  qed
  from i rel c1 have "insertIn (replaceAt doc p (Element b cs')) (p @ startContainer r1') (rangeStartOffset r1')
      (Element (createMark hid col) f') = Some [d]" by simp
  from insertIn_local[OF c this] obtain x where
    x: "insertIn (Element b cs') (startContainer r1') (rangeStartOffset r1') (Element (createMark hid col) f') = Some [x]"
    "d = replaceAt doc p x" by blast
  from wrap_success[OF ex' x(1)[folded c1]] x(2) show ?thesis by blast
qed

lemma anyElement_nodeAt:
  "\<not> anyElement P doc \<Longrightarrow> nodeAt doc p = Some n \<Longrightarrow> \<not> anyElement P n"
  by (induction doc p arbitrary: n rule: nodeAt.induct) (auto split: if_splits)

lemma findFirstList_update:
  "\<forall>c \<in> set cs. \<not> anyElement P c \<Longrightarrow> i < length cs \<Longrightarrow>
   findFirstList P k (cs[i := x]) = map_option (\<lambda>q. (k + i) # q) (findFirst P x)"
proof (induction cs arbitrary: i k)
  case Nil
  then show ?case by simp
next
  case (Cons c cs)
  show ?case
  proof (cases i)
    case 0
    from Cons.prems(1) have "findFirstList P (Suc k) cs = None"
      by (simp add: findFirst_None_iff)
    with 0 show ?thesis by (simp split: option.splits)
  next
    case (Suc i')
    from Cons.prems(1) have "findFirst P c = None" by (simp add: findFirst_None_iff)
    with Suc Cons.IH[of i' "Suc k"] Cons.prems show ?thesis by simp
  qed
qed

lemma findFirst_replaceAt:
  "\<not> anyElement P doc \<Longrightarrow> nodeAt doc p = Some c0 \<Longrightarrow>
   findFirst P (replaceAt doc p x) = map_option ((@) p) (findFirst P x)"
proof (induction doc p arbitrary: c0 rule: nodeAt.induct)
  case (1 n)
  then show ?case by (simp add: option.map_ident)
next
  case (2 a cs i p)
  from "2.prems" have i: "i < length cs" and c0: "nodeAt (cs ! i) p = Some c0"
    and na: "\<not> P a" and free: "\<forall>c \<in> set cs. \<not> anyElement P c" by (auto split: if_splits)
  from free i have "\<not> anyElement P (cs ! i)" by simp
  from "2.IH"[OF i this c0] findFirstList_update[OF free i, of 0 "replaceAt (cs ! i) p x"] na i
  show ?case by (simp add: option.map_comp comp_def)
qed auto

lemma unwrapIn_replaceAt:
  "nodeAt doc p = Some c0 \<Longrightarrow> q \<noteq> [] \<Longrightarrow>
   unwrapIn (replaceAt doc p x) (p @ q) = replaceAt doc p (unwrapIn x q)"
proof (induction doc p arbitrary: c0 rule: nodeAt.induct)
  case (1 n)
  then show ?case by simp
next
  case (2 a cs i p)
  from "2.prems" have i: "i < length cs" and c0: "nodeAt (cs ! i) p = Some c0"
    by (auto split: if_splits)
  from "2.prems"(2) obtain j t where jt: "p @ q = j # t" by (cases "p @ q") auto
  from "2.IH"[OF i c0 "2.prems"(2)] i show ?case
    by (simp add: jt[symmetric] del: append_eq_Cons_conv) (simp add: jt)
qed auto

lemma nodeAt_replaceAt:
  "nodeAt doc p = Some c0 \<Longrightarrow> nodeAt (replaceAt doc p x) p = Some x"
  by (induction doc p arbitrary: c0 rule: nodeAt.induct) (auto split: if_splits)

lemma insertIn_root_attrs:
  "insertIn (Element b cs) p k m = Some [x] \<Longrightarrow> \<exists>cs'. x = Element b cs'"
  by (cases p) (auto split: if_splits option.splits)

lemma wrap_root_attrs:
  assumes "wrapRangeWithHighlight (Element b bs) r hid c = (True, x)"
  shows "\<exists>cs'. x = Element b cs'"
proof -
  from wrap_True_extract[OF assms] obtain d1 f r1 where e: "extractContents (Element b bs) r = (d1, f, r1)"
    and i: "insertIn d1 (startContainer r1) (rangeStartOffset r1) (Element (createMark hid c) f) = Some [x]"
    by blast
  have "\<exists>cs1. d1 = Element b cs1"
  proof (cases "collapsed r")
    case True
    with e show ?thesis by (auto simp: extractContents_def)
  next
    case False
    with e have "d1 = fst (extractIn (Element b bs) (startContainer r) (rangeStartOffset r)
        (endContainer r) (rangeEndOffset r))"
      by (simp add: extractContents_def case_prod_beta Let_def)
    with extractIn_Element[of b bs "startContainer r" "rangeStartOffset r" "endContainer r" "rangeEndOffset r"]
    show ?thesis by simp
  qed
  with i insertIn_root_attrs show ?thesis by blast
qed

lemma findFirst_not_root:
  "\<not> P b \<Longrightarrow> findFirst P (Element b cs) = Some q \<Longrightarrow> q \<noteq> []"
proof -
  have "findFirstList P k cs = Some q \<Longrightarrow> q \<noteq> []" for k
    by (induction cs arbitrary: k) (auto split: option.splits)
  then show "\<not> P b \<Longrightarrow> findFirst P (Element b cs) = Some q \<Longrightarrow> q \<noteq> []" by auto
qed

lemma unwrap_restores:
  assumes container: "nodeAt doc p = Some (Element b bs)"
    and inside: "startContainer r = p @ ps" "endContainer r = p @ pe"
    and valid: "validRange doc r"
    and fresh: "\<not> anyElement (\<lambda>a. dataHighlightId a = Some hid) doc"
    and safe: "selectorSafe hid"
    and wrapped: "wrapRangeWithHighlight doc r hid c = (True, doc')"
  shows "\<exists>doc'' n''. removeHighlightById doc' hid = Some (Inr (Some doc'')) \<and> nodeAt doc'' p = Some n''
           \<and> descendantText n'' = descendantText (Element b bs)"
proof -
  let ?P = "\<lambda>a. dataHighlightId a = Some hid"
  let ?r = "r\<lparr>startContainer := ps, endContainer := pe\<rparr>"
  from wrap_local[OF container inside wrapped] obtain x where
    wx: "wrapRangeWithHighlight (Element b bs) ?r hid c = (True, x)" and d: "doc' = replaceAt doc p x"
    by blast
  have v: "validRange (Element b bs) ?r"
    using valid inside validBoundary_local[OF container] bpBefore_local
    by (simp add: validRange_def)
  from wrap_text[OF wx v] have tx: "descendantText x = descendantText (Element b bs)" by simp
  from anyElement_nodeAt[OF fresh container] have nb: "\<not> ?P b" by simp
  from wrap_root_attrs[OF wx] obtain cs' where x: "x = Element b cs'" by blast
  from wrap_True_marked[OF wx] have "findFirst ?P x \<noteq> None"
    by (simp add: findFirst_None_iff)
  then obtain q where q: "findFirst ?P x = Some q" by (cases "findFirst ?P x") auto
  from findFirst_not_root[OF nb q[unfolded x]] have qn: "q \<noteq> []" .
  from findFirst_replaceAt[OF fresh container, of x] q d
  have ff: "findFirst ?P doc' = Some (p @ q)" by simp
  from qn obtain i t where it: "p @ q = i # t" by (cases "p @ q") auto
  have rm: "removeHighlightById doc' hid = Some (Inr (Some (unwrapIn doc' (p @ q))))"
    using ff by (simp add: removeHighlightById_def querySelector_safe[OF safe] it)
  have "unwrapIn doc' (p @ q) = replaceAt doc p (unwrapIn x q)"
    unfolding d by (rule unwrapIn_replaceAt[OF container qn])
  with rm nodeAt_replaceAt[OF container, of "unwrapIn x q"] tx unwrapIn_text[of x q]
  show ?thesis by simp
qed

lemma countList_zero:
  "sum_list (map (countElements P) cs) = 0 \<longleftrightarrow> (\<forall>c \<in> set cs. countElements P c = 0)"
  by (induction cs) auto

lemma count_zero_iff: "countElements P n = 0 \<longleftrightarrow> \<not> anyElement P n"
proof (induction n)
  case (Element a cs)
  then show ?case by (auto simp: countList_zero)
qed simp_all

lemma mergeText_count:
  "sum_list (map (countElements P) (mergeText xs)) = sum_list (map (countElements P) xs)"
proof (induction xs rule: mergeText.induct)
  case (2 s rest)
  then show ?case by (auto split: list.splits node.splits)
qed simp_all

lemma normalize_count: "countElements P (normalize n) = countElements P n"
proof (induction n)
  case (Element a cs)
  have "map (countElements P) (map normalize cs) = map (countElements P) cs"
    using Element by (simp add: map_idI)
  then show ?case by (simp add: mergeText_count del: map_map)
qed simp_all

lemma count_split:
  "i < length cs \<Longrightarrow>
   sum_list (map f cs) = sum_list (map f (take i cs)) + f (cs ! i) + sum_list (map f (drop (Suc i) cs))"
  for f :: "'a \<Rightarrow> nat"
proof -
  assume i: "i < length cs"
  have "cs = take i cs @ cs ! i # drop (Suc i) cs" using i by (rule id_take_nth_drop)
  then have "map f cs = map f (take i cs) @ f (cs ! i) # map f (drop (Suc i) cs)"
    by (metis list.simps(9) map_append)
  then show ?thesis by (metis add.assoc sum_list.Cons sum_list.append)
qed

lemma count_take_drop:
  "sum_list (map f (take k cs)) + sum_list (map f (drop k cs)) = sum_list (map f cs)"
  for f :: "'a \<Rightarrow> nat"
  by (metis append_take_drop_id map_append sum_list.append)

lemma insertIn_count:
  "insertIn n p k m = Some ns \<Longrightarrow>
   sum_list (map (countElements P) ns) = countElements P n + countElements P m"
proof (induction n p k m arbitrary: ns rule: insertIn.induct)
  case (1 s k m)
  then show ?case by auto
next
  case (3 a cs k m)
  then show ?case using count_take_drop[of "countElements P" k cs] by auto
next
  case (4 a cs i p k m)
  from "4.prems" obtain ns' where i: "i < length cs" and n': "insertIn (cs ! i) p k m = Some ns'"
    and ns: "ns = [Element a (take i cs @ ns' @ drop (Suc i) cs)]"
    by (auto split: if_splits option.splits)
  from "4.IH"[OF i n'] count_split[OF i, of "countElements P"] show ?case
    by (simp add: ns)
qed auto

lemma splitNode_fresh:
  "\<not> anyElement P n \<Longrightarrow>
   \<not> anyElement P (fst (splitNode n p k)) \<and> \<not> anyElement P (snd (splitNode n p k))"
proof (induction n p k rule: splitNode.induct)
  case (3 a cs k)
  then show ?case by (auto dest: in_set_takeD in_set_dropD)
next
  case (4 a cs i p k)
  show ?case
  proof (cases "i < length cs")
    case True
    with "4.prems" have "\<not> anyElement P (cs ! i)" by simp
    from "4.IH"[OF True this] "4.prems" True show ?thesis
      by (auto simp: case_prod_beta dest: in_set_takeD in_set_dropD)
  next
    case False
    with "4.prems" show ?thesis by simp
  qed
qed auto

lemma extractIn_fresh:
  "\<not> anyElement P n \<Longrightarrow>
   \<not> anyElement P (fst (extractIn n ps so pe eo))
   \<and> (\<forall>f \<in> set (snd (extractIn n ps so pe eo)). \<not> anyElement P f)"
proof (induction n ps so pe eo rule: extractIn.induct)
  case (3 a cs so eo)
  then show ?case by (auto dest: in_set_takeD in_set_dropD)
next
  case (4 a cs so j pe eo)
  show ?case
  proof (cases "j < length cs")
    case True
    with "4.prems" have "\<not> anyElement P (cs ! j)" by simp
    from splitNode_fresh[OF this, of pe eo] "4.prems" True show ?thesis
      by (auto simp: case_prod_beta dest: in_set_takeD in_set_dropD)
  next
    case False
    with "4.prems" show ?thesis by simp
  qed
next
  case (5 a cs i ps so eo)
  show ?case
  proof (cases "i < length cs")
    case True
    with "5.prems" have "\<not> anyElement P (cs ! i)" by simp
    from splitNode_fresh[OF this, of ps so] "5.prems" True show ?thesis
      by (auto simp: case_prod_beta dest: in_set_takeD in_set_dropD)
  next
    case False
    with "5.prems" show ?thesis by simp
  qed
next
  case (6 a cs i ps so j pe eo)
  show ?case
  proof (cases "i = j")
    case True
    show ?thesis
    proof (cases "i < length cs")
      case il: True
      with "6.prems" have "\<not> anyElement P (cs ! i)" by simp
      from "6.IH"[OF True il this] "6.prems" True il show ?thesis
        by (auto simp: case_prod_beta dest: set_update_subset_insert[THEN subsetD])
    next
      case False
      with "6.prems" True show ?thesis by simp
    qed
  next
    case ne: False
    show ?thesis
    proof (cases "i < length cs \<and> j < length cs")
      case True
      with "6.prems" have "\<not> anyElement P (cs ! i)" "\<not> anyElement P (cs ! j)" by simp_all
      from splitNode_fresh[OF this(1), of ps so] splitNode_fresh[OF this(2), of pe eo] "6.prems" ne True
      show ?thesis
        by (auto simp: case_prod_beta dest: in_set_takeD in_set_dropD)
    next
      case False
      with "6.prems" ne show ?thesis by auto
    qed
  qed
qed auto

lemma extractContents_fresh:
  assumes "\<not> anyElement P doc" "extractContents doc r = (d1, f, r1)"
  shows "\<not> anyElement P d1" "\<forall>c \<in> set f. \<not> anyElement P c"
  using assms extractIn_fresh[OF assms(1), of "startContainer r" "rangeStartOffset r" "endContainer r"
      "rangeEndOffset r"]
  by (auto simp: extractContents_def case_prod_beta Let_def split: if_splits)

lemma wrap_count:
  assumes fresh: "\<not> anyElement (\<lambda>a. dataHighlightId a = Some hid) doc"
    and w: "wrapRangeWithHighlight doc r hid c = (True, d)"
  shows "countElements (\<lambda>a. dataHighlightId a = Some hid) d = 1"
proof -
  let ?P = "\<lambda>a. dataHighlightId a = Some hid"
  from wrap_True_extract[OF w] obtain d1 f r1 where e: "extractContents doc r = (d1, f, r1)"
    and i: "insertIn d1 (startContainer r1) (rangeStartOffset r1) (Element (createMark hid c) f) = Some [d]"
    by blast
  note fr = extractContents_fresh[OF fresh e]
  have c1: "countElements ?P d1 = 0" using fr(1) by (simp add: count_zero_iff)
  have cf: "sum_list (map (countElements ?P) f) = 0"
    using fr(2) by (simp add: countList_zero count_zero_iff)
  have "countElements ?P (Element (createMark hid c) f) = 1"
    using cf by (simp add: createMark_def)
  with insertIn_count[OF i, of ?P] c1 show ?thesis by simp
qed

lemma findFirst_Some:
  "findFirst P n = Some q \<Longrightarrow> \<exists>m ms. nodeAt n q = Some (Element m ms) \<and> P m"
  "findFirstList P k cs = Some q \<Longrightarrow>
     \<exists>j t m ms. q = (k + j) # t \<and> j < length cs \<and> nodeAt (cs ! j) t = Some (Element m ms) \<and> P m"
proof (induction P n and P k cs arbitrary: q and q rule: findFirst_findFirstList.induct)
  case (1 P a cs)
  show ?case
  proof (cases "P a")
    case True
    with "1.prems" show ?thesis by simp
  next
    case False
    with "1.prems" have "findFirstList P 0 cs = Some q" by simp
    from "1.IH"[OF False this] show ?thesis by auto
  qed
next
  case (5 P i c cs)
  show ?case
  proof (cases "findFirst P c")
    case None
    with "5.prems" have "findFirstList P (Suc i) cs = Some q" by simp
    from "5.IH"(2)[OF None this] obtain j t m ms where
      "q = (Suc i + j) # t" "j < length cs" "nodeAt (cs ! j) t = Some (Element m ms)" "P m" by blast
    then show ?thesis by (intro exI[of _ "Suc j"] exI[of _ t] exI[of _ m] exI[of _ ms]) simp
  next
    case (Some p)
    with "5.prems" have q: "q = i # p" by simp
    from "5.IH"(1)[OF Some] obtain m ms where "nodeAt c p = Some (Element m ms)" "P m" by blast
    with q show ?thesis by (intro exI[of _ 0] exI[of _ p] exI[of _ m] exI[of _ ms]) simp
  qed
qed simp_all

lemma nodeAt_snoc:
  assumes "nodeAt n (q @ [i]) = Some c"
  shows "\<exists>a cs. nodeAt n q = Some (Element a cs) \<and> i < length cs \<and> cs ! i = c"
proof -
  from assms obtain m where m: "nodeAt n q = Some m" "nodeAt m [i] = Some c"
    by (auto simp: nodeAt_append split: option.splits)
  from m(2) show ?thesis using m(1) by (cases m) (auto split: if_splits)
qed

lemma unwrapIn_char:
  "nodeAt n q = Some (Element pa cs) \<Longrightarrow> i < length cs \<Longrightarrow> cs ! i = Element m ms \<Longrightarrow>
   unwrapIn n (q @ [i]) = replaceAt n q (normalize (Element pa (take i cs @ ms @ drop (Suc i) cs)))"
proof (induction n q rule: nodeAt.induct)
  case (1 n)
  then show ?case by simp
next
  case (2 a bs j p)
  from "2.prems"(1) have j: "j < length bs" and c: "nodeAt (bs ! j) p = Some (Element pa cs)"
    by (auto split: if_splits)
  obtain k t where kt: "p @ [i] = k # t" by (cases p) auto
  from "2.IH"[OF j c "2.prems"(2,3)] j show ?case
    by (simp add: kt[symmetric] del: append_eq_Cons_conv) (simp add: kt)
qed auto

lemma replaceAt_count:
  "nodeAt n q = Some old \<Longrightarrow>
   countElements P (replaceAt n q y) + countElements P old = countElements P n + countElements P y"
proof (induction n q arbitrary: old rule: nodeAt.induct)
  case (1 n)
  then show ?case by simp
next
  case (2 a cs i p)
  from "2.prems" have i: "i < length cs" and c: "nodeAt (cs ! i) p = Some old"
    by (auto split: if_splits)
  let ?f = "countElements P"
  let ?cs' = "cs[i := replaceAt (cs ! i) p y]"
  have i': "i < length ?cs'" using i by simp
  have s': "sum_list (map ?f ?cs')
        = sum_list (map ?f (take i cs)) + ?f (replaceAt (cs ! i) p y) + sum_list (map ?f (drop (Suc i) cs))"
    using count_split[OF i', of ?f] i by simp
  from "2.IH"[OF i c] count_split[OF i, of ?f] s' i show ?case by simp
qed auto

lemma mergeText_merged: "mergedList (mergeText xs)"
proof (induction xs rule: mergeText.induct)
  case (2 s rest)
  then show ?case by (auto split: list.splits node.splits)
qed simp_all

lemma mergeText_all:
  "list_all normalized xs \<Longrightarrow> list_all normalized (mergeText xs)"
proof (induction xs rule: mergeText.induct)
  case (2 s rest)
  then show ?case by (auto split: list.splits node.splits)
qed simp_all

lemma normalize_normalized: "normalized (normalize n)"
proof (induction n)
  case (Element a cs)
  then have "list_all normalized (map normalize cs)" by (simp add: list_all_iff)
  then show ?case by (simp add: mergeText_merged mergeText_all)
qed simp_all

text \<open>
  C7. For a range of the document that lies inside a container element, and an id that no
  element of the document carries yet (and that is free of the characters special in a CSS
  string): after \<open>wrapRangeWithHighlight\<close> has answered \<open>true\<close>, \<open>removeHighlightById\<close>
  with that id finds the marker below its parent, and the document it leaves is the marked
  document with the parent's children changed to the children before the marker, the
  children of the marker and the children after it, normalized. In it no list of children
  below the parent has an empty Text node or two Text nodes in a row, no element carries
  the id any more, and the flattened text of the container, and of the whole document, is
  what it was before the marker was applied.
\<close>

theorem unwrap_restores_text:
  assumes container: "nodeAt doc p = Some (Element b bs)"
    and inside: "startContainer r = p @ ps" "endContainer r = p @ pe"
    and valid: "validRange doc r"
    and fresh: "\<not> anyElement (\<lambda>a. dataHighlightId a = Some highlightId) doc"
    and safe: "selectorSafe highlightId"
    and wrapped: "wrapRangeWithHighlight doc r highlightId c = (True, doc')"
  shows "\<exists>doc'' q i pa cs m ms parent n''.
           findFirst (\<lambda>a. dataHighlightId a = Some highlightId) doc' = Some (q @ [i])
         \<and> nodeAt doc' q = Some (Element pa cs) \<and> i < length cs \<and> cs ! i = Element m ms
         \<and> removeHighlightById doc' highlightId = Some (Inr (Some doc''))
         \<and> doc'' = replaceAt doc' q (normalize (Element pa (take i cs @ ms @ drop (Suc i) cs)))
         \<and> nodeAt doc'' q = Some parent \<and> normalized parent
         \<and> \<not> anyElement (\<lambda>a. dataHighlightId a = Some highlightId) doc''
         \<and> nodeAt doc'' p = Some n'' \<and> descendantText n'' = descendantText (Element b bs)
         \<and> descendantText doc'' = descendantText doc"
proof -
  let ?P = "\<lambda>a. dataHighlightId a = Some highlightId"
  let ?f = "countElements ?P"
  from nodeAt_Element_root[OF container] obtain a as where doc: "doc = Element a as" by blast
  then have root: "nodeAt doc [] = Some (Element a as)" by simp
  from fresh doc have na: "\<not> ?P a" by simp
  from wrap_root_attrs[OF wrapped[unfolded doc]] obtain as' where d': "doc' = Element a as'" by blast
  from wrap_True_marked[OF wrapped] obtain qq where qq: "findFirst ?P doc' = Some qq"
    by (cases "findFirst ?P doc'") (auto simp: findFirst_None_iff)
  from findFirst_not_root[OF na qq[unfolded d']] have ne: "qq \<noteq> []" .
  then obtain q i where qi: "qq = q @ [i]" by (metis rev_exhaust)
  from findFirst_Some(1)[OF qq] obtain m ms where mk: "nodeAt doc' (q @ [i]) = Some (Element m ms)"
    and pm: "?P m" unfolding qi by blast
  from nodeAt_snoc[OF mk] obtain pa cs where par: "nodeAt doc' q = Some (Element pa cs)"
    and i: "i < length cs" and ci: "cs ! i = Element m ms" by blast
  let ?N = "normalize (Element pa (take i cs @ ms @ drop (Suc i) cs))"
  let ?d = "replaceAt doc' q ?N"
  from ne obtain k t where kt: "qq = k # t" by (cases qq) auto
  have "removeHighlightById doc' highlightId = Some (Inr (Some (unwrapIn doc' qq)))"
    using qq by (simp add: removeHighlightById_def querySelector_safe[OF safe] kt)
  then have rm: "removeHighlightById doc' highlightId = Some (Inr (Some ?d))"
    unfolding qi unwrapIn_char[OF par i ci] .
  have "?f ?N = ?f (Element pa (take i cs @ ms @ drop (Suc i) cs))" by (rule normalize_count)
  then have cN: "?f ?N + 1 = ?f (Element pa cs)"
    using count_split[OF i, of ?f] pm ci by simp
  have "?f ?d + ?f (Element pa cs) = ?f doc' + ?f ?N" by (rule replaceAt_count[OF par])
  with wrap_count[OF fresh wrapped] cN have "?f ?d = 0" by simp
  then have gone: "\<not> anyElement ?P ?d" by (simp add: count_zero_iff)
  from unwrap_restores[OF root _ _ valid fresh safe wrapped, of "startContainer r" "endContainer r"]
  have t1: "descendantText ?d = descendantText doc" using doc rm by auto
  from unwrap_restores[OF container inside valid fresh safe wrapped] rm
  obtain n2 where t2: "nodeAt ?d p = Some n2" "descendantText n2 = descendantText (Element b bs)"
    by auto
  have "nodeAt ?d q = Some ?N" by (rule nodeAt_replaceAt[OF par])
  with qq[unfolded qi] par i ci rm normalize_normalized[of "Element pa (take i cs @ ms @ drop (Suc i) cs)"]
    gone t1 t2
  show ?thesis by blast
qed

theorem unwrap_restores_text_witness:
  "\<exists>doc' doc'' n''.
      wrapRangeWithHighlight exDoc
        \<lparr>startContainer = [1, 0, 0, 0], rangeStartOffset = 1, endContainer = [1, 0, 1], rangeEndOffset = 5\<rparr>
        ''u2'' Red = (True, doc')
    \<and> anyElement (\<lambda>a. dataHighlightId a = Some ''u2'') doc'
    \<and> removeHighlightById doc' ''u2'' = Some (Inr (Some doc''))
    \<and> \<not> anyElement (\<lambda>a. dataHighlightId a = Some ''u2'') doc''
    \<and> nodeAt doc'' [1, 0] = Some n''
    \<and> descendantText n'' = ''xxhello world''
    \<and> descendantText doc'' = ''xxhello world''"
proof -
  let ?r = "\<lparr>startContainer = [1, 0, 0, 0], rangeStartOffset = 1, endContainer = [1, 0, 1], rangeEndOffset = 5\<rparr>"
  have container: "nodeAt exDoc [1, 0] = Some (Element \<lparr>htmlNamespace = True, localName = ''p'',
      idAttr = [], className = [], dataHighlightId = None\<rparr>
      [plainElement ''b'' [Text ''xx''], Text ''hello world''])"
    by (simp add: exDoc_def plainElement_def)
  have inside: "startContainer ?r = [1, 0] @ [0, 0]" "endContainer ?r = [1, 0] @ [1]" by simp_all
  have valid: "validRange exDoc ?r" by code_simp
  have fresh: "\<not> anyElement (\<lambda>a. dataHighlightId a = Some ''u2'') exDoc"
    by (simp add: exDoc_def plainElement_def)
  have safe: "selectorSafe ''u2''" by code_simp
  have "(case wrapRangeWithHighlight exDoc ?r ''u2'' Red of (ok, d) \<Rightarrow> ok)" by code_simp
  then obtain d where w: "wrapRangeWithHighlight exDoc ?r ''u2'' Red = (True, d)"
    by (cases "wrapRangeWithHighlight exDoc ?r ''u2'' Red") auto
  have t1: "descendantText (Element \<lparr>htmlNamespace = True, localName = ''p'', idAttr = [],
      className = [], dataHighlightId = None\<rparr>
      [plainElement ''b'' [Text ''xx''], Text ''hello world'']) = ''xxhello world''"
    by (simp add: plainElement_def)
  have t2: "descendantText exDoc = ''xxhello world''" by (simp add: exDoc_def plainElement_def)
  from unwrap_restores_text[OF container inside valid fresh safe w] w wrap_True_marked[OF w]
  show ?thesis unfolding t1 t2 by blast
qed

section \<open>The structural path and back\<close>

lemma digitChar_of_char: "d < 10 \<Longrightarrow> (of_char (digitChar d) :: nat) = 48 + d"
  by (simp add: digitChar_def)

lemma digitChar_isDigit: "d < 10 \<Longrightarrow> isDigit (digitChar d)"
  by (simp add: isDigit_def digitChar_of_char)

lemma parseNat_snoc: "parseNat (xs @ [c]) = 10 * parseNat xs + ((of_char c :: nat) - 48)"
  by (simp add: parseNat_def)

lemma showNat_props:
  "parseNat (showNat n) = n \<and> list_all isDigit (showNat n) \<and> showNat n \<noteq> []"
proof (induction n rule: showNat.induct)
  case (1 n)
  show ?case
  proof (cases "n < 10")
    case True
    then show ?thesis
      by (subst (1 2 3) showNat.simps) (simp add: parseNat_def digitChar_of_char digitChar_isDigit)
  next
    case False
    have m: "n mod 10 < 10" by simp
    from 1[OF False] False show ?thesis
      by (subst (1 2 3) showNat.simps)
         (simp add: parseNat_snoc digitChar_of_char[OF m] digitChar_isDigit[OF m])
  qed
qed

lemma isDigit_chars: "isDigit c \<Longrightarrow> c \<noteq> CHR ''/'' \<and> c \<noteq> CHR ''['' \<and> c \<noteq> CHR '']''"
  by (auto simp: isDigit_def)

lemma htmlNameChar_props:
  assumes "htmlNameChar c"
  shows "lowerChar (asciiUpperChar c) = c" "asciiLowerChar c = c" "isNameChar c"
    "c \<noteq> CHR ''/''" "c \<noteq> CHR ''[''" "c \<noteq> dq"
proof -
  from assms consider "97 \<le> (of_char c :: nat) \<and> (of_char c :: nat) \<le> 122"
    | "48 \<le> (of_char c :: nat) \<and> (of_char c :: nat) \<le> 57"
    | "c = CHR ''-''" | "c = CHR ''_''" | "c = CHR ''.''"
    by (auto simp: htmlNameChar_def isDigit_def)
  then have "lowerChar (asciiUpperChar c) = c \<and> asciiLowerChar c = c \<and> isNameChar c
      \<and> c \<noteq> CHR ''/'' \<and> c \<noteq> CHR ''['' \<and> c \<noteq> dq"
  proof cases
    case 1
    then have "(of_char c :: nat) - 32 < 256" by linarith
    with 1 have u: "(of_char (asciiUpperChar c) :: nat) = of_char c - 32"
      by (simp add: asciiUpperChar_def Let_def)
    moreover from 1 have "65 \<le> (of_char c :: nat) - 32 \<and> (of_char c :: nat) - 32 \<le> 90" by linarith
    ultimately have "lowerChar (asciiUpperChar c) = char_of ((of_char c :: nat) - 32 + 32)"
      by (simp add: lowerChar_def Let_def)
    with 1 have "lowerChar (asciiUpperChar c) = c" by simp
    with 1 show ?thesis
      by (auto simp: asciiLowerChar_def isNameChar_def isLetter_def Let_def dq_def)
  next
    case 2
    then show ?thesis
      by (auto simp: asciiUpperChar_def lowerChar_def asciiLowerChar_def isNameChar_def isDigit_def
          Let_def dq_def)
  qed (simp_all add: asciiUpperChar_def lowerChar_def asciiLowerChar_def isNameChar_def dq_def)
  then show "lowerChar (asciiUpperChar c) = c" "asciiLowerChar c = c" "isNameChar c"
    "c \<noteq> CHR ''/''" "c \<noteq> CHR ''[''" "c \<noteq> dq" by simp_all
qed

lemma htmlName_first: "htmlName (c # cs) \<Longrightarrow> htmlNameChar c"
  by (simp add: htmlNameChar_def)

lemma htmlName_chars: "htmlName l \<Longrightarrow> list_all htmlNameChar l"
  by (cases l) (auto simp: htmlNameChar_def)

lemma htmlName_props:
  assumes "htmlName l"
  shows "toLowerCase (map asciiUpperChar l) = l" "map asciiLowerChar l = l" "validName l"
    "CHR ''/'' \<notin> set l" "CHR ''['' \<notin> set l"
proof -
  from htmlName_chars[OF assms] have a: "\<forall>c \<in> set l. htmlNameChar c" by (simp add: list_all_iff)
  show "toLowerCase (map asciiUpperChar l) = l"
    using a by (simp add: toLowerCase_def map_idI htmlNameChar_props(1))
  show "map asciiLowerChar l = l" using a by (simp add: map_idI htmlNameChar_props(2))
  show "validName l" using assms a
    by (cases l) (auto simp: isLetter_def Let_def list_all_iff htmlNameChar_props(3))
  show "CHR ''/'' \<notin> set l" using a htmlNameChar_props(4) by blast
  show "CHR ''['' \<notin> set l" using a htmlNameChar_props(5) by blast
qed


lemma asciiUpper_inj:
  assumes "htmlName l" "htmlName l'" "map asciiUpperChar l = map asciiUpperChar l'"
  shows "l = l'"
proof -
  have "toLowerCase (map asciiUpperChar l) = toLowerCase (map asciiUpperChar l')"
    by (simp only: assms(3))
  then show ?thesis
    by (simp only: htmlName_props(1)[OF assms(1)] htmlName_props(1)[OF assms(2)])
qed

lemma splitOn_nonempty: "splitOn c x \<noteq> []"
  by (induction x) (auto split: list.splits)

lemma splitOn_none: "c \<notin> set x \<Longrightarrow> splitOn c x = [x]"
  by (induction x) auto


lemma splitOn_append: "c \<notin> set x \<Longrightarrow> splitOn c (x @ c # ys) = x # splitOn c ys"
proof (induction x)
  case Nil
  then show ?case by simp
next
  case (Cons a x)
  then have "a \<noteq> c" "c \<notin> set x" by auto
  with Cons.IH show ?case by simp
qed

lemma splitOn_join:
  "segs \<noteq> [] \<Longrightarrow> \<forall>s \<in> set segs. c \<notin> set s \<Longrightarrow> splitOn c (joinWith [c] segs) = segs"
proof (induction segs)
  case Nil
  then show ?case by simp
next
  case (Cons x segs)
  show ?case
  proof (cases segs)
    case Nil
    with Cons.prems show ?thesis by (simp add: splitOn_none)
  next
    case (Cons y ys)
    with Cons.prems Cons.IH have "splitOn c (joinWith [c] segs) = segs" by simp
    with Cons Cons.prems show ?thesis by (simp add: splitOn_append)
  qed
qed

lemma parseStep_partString:
  assumes "validName t" "CHR ''['' \<notin> set t"
  shows "parseStep (partString (t, k)) = Some (t, k)"
proof -
  have P: "\<And>x. x \<in> set t \<Longrightarrow> x \<noteq> CHR ''[''" using assms(2) by auto
  have tw: "takeWhile (\<lambda>c. c \<noteq> CHR ''['') (t @ CHR ''['' # showNat k @ '']'') = t"
    using takeWhile_append2[of t "\<lambda>c. c \<noteq> CHR ''[''" "CHR ''['' # showNat k @ '']''", OF P] by simp
  have dw: "dropWhile (\<lambda>c. c \<noteq> CHR ''['') (t @ CHR ''['' # showNat k @ '']'') = CHR ''['' # showNat k @ '']''"
    using dropWhile_append2[of t "\<lambda>c. c \<noteq> CHR ''[''" "CHR ''['' # showNat k @ '']''", OF P] by simp
  from showNat_props[of k] show ?thesis
    using assms(1) by (simp add: parseStep_def partString_def tw dw Let_def butlast_append)
qed

lemma partString_no_slash:
  assumes "CHR ''/'' \<notin> set t"
  shows "CHR ''/'' \<notin> set (partString (t, k))"
  using assms showNat_props[of k] isDigit_chars by (auto simp: partString_def list_all_iff)

lemma xpathParts_prefixes:
  "xpathParts doc (rev p) parts = map (xpathPart doc) (prefixes p) @ parts"
proof (induction p arbitrary: parts rule: rev_induct)
  case Nil
  then show ?case by simp
next
  case (snoc i p)
  have "xpathParts doc (rev (p @ [i])) parts = xpathParts doc (rev p) (xpathPart doc (p @ [i]) # parts)"
    by simp
  then show ?case by (simp add: snoc.IH)
qed

lemma prefixes_hd: "prefixes p = [] # tl (prefixes p)"
  by (cases p) auto

lemma xpathPart_root:
  "xpathPart (Element a cs) [] = partString (toLowerCase (tagName a), 1)"
  by (simp add: xpathPart_def partString_def)

lemma xpathPart_child:
  assumes "nodeAt doc q = Some (Element b bs)" "i < length bs" "bs ! i = Element c ds"
  shows "xpathPart doc (q @ [i]) = partString (partOf bs i)"
  using assms by (simp add: xpathPart_def partString_def partOf_def nodeAt_append Let_def)

lemma parts_stepsOf:
  "nodeAt doc q0 = Some n \<Longrightarrow> nodeAt n p = Some (Element e es) \<Longrightarrow>
   map (\<lambda>q. xpathPart doc (q0 @ q)) (tl (prefixes p)) = map partString (stepsOf n p)"
proof (induction p arbitrary: n q0)
  case Nil
  then show ?case by (cases n) simp_all
next
  case (Cons i p)
  from Cons.prems(2) obtain a cs where n: "n = Element a cs" and i: "i < length cs"
    and c: "nodeAt (cs ! i) p = Some (Element e es)"
    by (cases n) (auto split: if_splits)
  from nodeAt_Element_root[OF c] obtain c' ds where ci: "cs ! i = Element c' ds" by blast
  have q: "nodeAt doc (q0 @ [i]) = Some (cs ! i)"
    using Cons.prems(1) n i by (simp add: nodeAt_append)
  have t: "tl (prefixes (i # p)) = [i] # map (Cons i) (tl (prefixes p))"
    using prefixes_hd[of p] by (metis list.sel(3) list.simps(9) prefixes.simps(2))
  have "map (\<lambda>q. xpathPart doc (q0 @ q)) (map (Cons i) (tl (prefixes p)))
      = map (\<lambda>q. xpathPart doc ((q0 @ [i]) @ q)) (tl (prefixes p))" by simp
  also have "\<dots> = map partString (stepsOf (cs ! i) p)" by (rule Cons.IH[OF q c])
  finally show ?case
    using xpathPart_child[OF Cons.prems(1)[unfolded n] i ci] n
    by (simp only: t list.map stepsOf.simps)
qed

lemma nthNamed_count:
  "\<forall>c \<in> set (take i cs). sameTagName t c = nameTest l c \<Longrightarrow> i < length cs \<Longrightarrow>
   nameTest l (cs ! i) \<Longrightarrow>
   nthNamed l (Suc (length (filter (sameTagName t) (take i cs)))) cs base = Some (base + i)"
proof (induction cs arbitrary: i base)
  case Nil
  then show ?case by simp
next
  case (Cons c cs)
  show ?case
  proof (cases i)
    case 0
    with Cons.prems show ?thesis by simp
  next
    case (Suc i')
    with Cons.prems have p: "\<forall>c \<in> set (take i' cs). sameTagName t c = nameTest l c" "i' < length cs"
      "nameTest l (cs ! i')" "sameTagName t c = nameTest l c" by auto
    from Cons.IH[OF p(1,2,3), of "Suc base"] p(4) Suc show ?thesis by simp
  qed
qed

lemma siblingOk_agree:
  assumes "htmlName l" "siblingOk l c"
  shows "sameTagName (map asciiUpperChar l) c = nameTest l c"
proof (cases c)
  case (Element b bs)
  show ?thesis
  proof (cases "htmlNamespace b")
    case True
    with assms(2) Element
    have "map asciiUpperChar (localName b) = map asciiUpperChar l \<longrightarrow> localName b = l" by simp
    then show ?thesis
      using Element True htmlName_props(2)[OF assms(1)] by (auto simp: tagName_def)
  next
    case False
    with assms(2) Element show ?thesis by (simp add: tagName_def)
  qed
qed auto

lemma stepOk_part:
  assumes "stepOk cs i"
  shows "\<exists>b bs. cs ! i = Element b bs \<and> htmlNamespace b \<and> htmlName (localName b)
           \<and> (\<forall>c \<in> set (take i cs). siblingOk (localName b) c)
           \<and> partOf cs i = (localName b,
                 Suc (length (filter (sameTagName (map asciiUpperChar (localName b))) (take i cs))))"
proof -
  from assms obtain b bs where ci: "cs ! i = Element b bs" and hb: "htmlNamespace b"
    and hn: "htmlName (localName b)" and sb: "list_all (siblingOk (localName b)) (take i cs)"
    by (cases "cs ! i") (auto simp: stepOk_def)
  have "partOf cs i = (localName b,
          Suc (length (filter (sameTagName (map asciiUpperChar (localName b))) (take i cs))))"
    using htmlName_props(1)[OF hn] ci hb by (simp add: partOf_def tagName_def siblingIndex_def)
  with ci hb hn sb show ?thesis by (auto simp: list_all_iff)
qed

lemma evalSteps_stepsOf:
  "stepsOk n p \<Longrightarrow> nodeAt n p = Some (Element e es) \<Longrightarrow> evalSteps n (stepsOf n p) = Some p"
proof (induction p arbitrary: n)
  case Nil
  then show ?case by (cases n) simp_all
next
  case (Cons i p)
  from Cons.prems(2) obtain a cs where n: "n = Element a cs" and i: "i < length cs"
    and c: "nodeAt (cs ! i) p = Some (Element e es)"
    by (cases n) (auto split: if_splits)
  from Cons.prems(1) n have so: "stepOk cs i" and rest: "stepsOk (cs ! i) p" by simp_all
  from stepOk_part[OF so] obtain b bs where ci: "cs ! i = Element b bs" and hb: "htmlNamespace b"
    and hn: "htmlName (localName b)" and sb: "\<forall>c \<in> set (take i cs). siblingOk (localName b) c"
    and po: "partOf cs i = (localName b,
                 Suc (length (filter (sameTagName (map asciiUpperChar (localName b))) (take i cs))))"
    by blast
  have st: "\<forall>c \<in> set (take i cs). sameTagName (map asciiUpperChar (localName b)) c = nameTest (localName b) c"
    using siblingOk_agree[OF hn] sb by blast
  have nt: "nameTest (localName b) (cs ! i)"
    using ci hb htmlName_props(2)[OF hn] by simp
  from nthNamed_count[OF st i nt, of 0]
  have nn: "nthNamed (localName b) (Suc (length (filter (sameTagName (map asciiUpperChar (localName b))) (take i cs)))) cs 0 = Some i"
    by simp
  from Cons.IH[OF rest c] nn show ?case by (simp add: n po)
qed

lemma stepsOf_names:
  "stepsOk n p \<Longrightarrow> nodeAt n p = Some (Element e es) \<Longrightarrow> \<forall>tk \<in> set (stepsOf n p). htmlName (fst tk)"
proof (induction p arbitrary: n)
  case Nil
  then show ?case by (cases n) simp_all
next
  case (Cons i p)
  from Cons.prems(2) obtain a cs where n: "n = Element a cs" and i: "i < length cs"
    and c: "nodeAt (cs ! i) p = Some (Element e es)"
    by (cases n) (auto split: if_splits)
  from Cons.prems(1) n have so: "stepOk cs i" and rest: "stepsOk (cs ! i) p" by simp_all
  from stepOk_part[OF so] obtain b bs where ci: "cs ! i = Element b bs"
    and hn: "htmlName (localName b)"
    and po: "partOf cs i = (localName b,
                 Suc (length (filter (sameTagName (map asciiUpperChar (localName b))) (take i cs))))"
    by blast
  from Cons.IH[OF rest c] hn po show ?case by (simp add: n)
qed

lemma those_map_Some: "those (map Some xs) = Some xs"
  by (induction xs) auto

lemma parse_steps:
  assumes "steps \<noteq> []" "\<forall>tk \<in> set steps. htmlName (fst tk)"
  shows "parseXPath (''/'' @ joinWith ''/'' (map partString steps)) = Some (Steps steps)"
proof -
  let ?segs = "map partString steps"
  obtain t k rest where st: "steps = (t, k) # rest" using assms(1) by (cases steps) auto
  with assms(2) have ht: "htmlName t" by simp
  then obtain c t' where t: "t = c # t'" by (cases t) auto
  from ht t htmlNameChar_props(4)[OF htmlName_first[OF ht[unfolded t]]] have cs: "c \<noteq> CHR ''/''" by simp
  have j: "\<exists>w. joinWith ''/'' ?segs = c # w"
    unfolding st t by (cases rest) (auto simp: partString_def)
  then obtain w where w: "joinWith ''/'' ?segs = c # w" by blast
  have noid: "take (length (''//*[@id='' @ [dq])) (''/'' @ joinWith ''/'' ?segs) \<noteq> ''//*[@id='' @ [dq]"
    unfolding w using cs by simp
  have ns: "\<forall>s \<in> set ?segs. CHR ''/'' \<notin> set s"
  proof
    fix s assume "s \<in> set ?segs"
    then obtain tk where tk: "tk \<in> set steps" "s = partString tk" by auto
    with assms(2) htmlName_props(4) have "CHR ''/'' \<notin> set (fst tk)" by blast
    from partString_no_slash[OF this, of "snd tk"] tk show "CHR ''/'' \<notin> set s" by simp
  qed
  have sp: "splitOn CHR ''/'' (joinWith ''/'' ?segs) = ?segs"
    using splitOn_join[of ?segs "CHR ''/''"] assms(1) ns by simp
  have ps: "map parseStep ?segs = map Some steps"
  proof -
    have "parseStep (partString tk) = Some tk" if "tk \<in> set steps" for tk
      using parseStep_partString[of "fst tk" "snd tk"] htmlName_props(3,5) assms(2) that by simp
    then show ?thesis by simp
  qed
  have th: "those (map parseStep (splitOn CHR ''/'' (joinWith ''/'' ?segs))) = Some steps"
    unfolding sp ps by (rule those_map_Some)
  show ?thesis
    using noid th by (simp add: parseXPath_def Let_def del: map_map)
qed

lemma parse_by_id:
  assumes "dq \<notin> set v"
  shows "parseXPath (''//*[@id='' @ [dq] @ v @ [dq] @ '']'') = Some (ById v)"
  using assms by (simp add: parseXPath_def Let_def)

lemma getXPath_path_form:
  assumes e: "nodeAt doc p = Some (Element a cs)" and noid: "idAttr a = []"
    and doc: "doc = Element r rs"
  shows "getXPath doc p = ''/'' @ joinWith ''/''
           (map partString ((toLowerCase (tagName r), 1) # stepsOf doc p))"
proof -
  have "xpathParts doc (rev p) [] = map (xpathPart doc) (prefixes p)"
    by (simp add: xpathParts_prefixes)
  also have "\<dots> = xpathPart doc [] # map (xpathPart doc) (tl (prefixes p))"
    using prefixes_hd[of p] by (metis list.simps(9))
  also have "map (xpathPart doc) (tl (prefixes p)) = map partString (stepsOf doc p)"
    using parts_stepsOf[of doc "[]" doc p a cs] e by simp
  finally have "xpathParts doc (rev p) [] = map partString ((toLowerCase (tagName r), 1) # stepsOf doc p)"
    using xpathPart_root[of r rs] doc by simp
  with e noid show ?thesis by (simp add: getXPath_def Let_def)
qed

text \<open>
  C5, amended. For an element \<open>e\<close> of the document with an id (free of double quotes),
  \<open>getElementByXPath (getXPath e)\<close> is the first element in document order that carries
  that id: \<open>e\<close> itself exactly when no element before it has the same id. For an element
  without id it is \<open>e\<close> itself when \<open>e\<close> and each of its ancestors is an element of the
  HTML namespace with a name as the HTML parser makes them (lower-case ASCII letters,
  digits, \<open>-\<close>, \<open>_\<close>, \<open>.\<close>, a letter first), and none of their preceding siblings is
  an HTML element whose name differs from theirs in case only, or an element outside the
  HTML namespace with their name in upper case.
\<close>

theorem xpath_round_trip:
  assumes e: "nodeAt doc p = Some (Element a cs)"
  shows "(idAttr a \<noteq> [] \<and> dq \<notin> set (idAttr a)
            \<longrightarrow> getElementByXPath doc (getXPath doc p) = findFirst (\<lambda>b. idAttr b = idAttr a) doc)
       \<and> (idAttr a = [] \<and> htmlPath doc p
            \<longrightarrow> getElementByXPath doc (getXPath doc p) = Some p)"
proof (intro conjI impI)
  assume "idAttr a \<noteq> [] \<and> dq \<notin> set (idAttr a)"
  then have ne: "idAttr a \<noteq> []" and q: "dq \<notin> set (idAttr a)" by simp_all
  from e ne have g: "getXPath doc p = ''//*[@id='' @ [dq] @ idAttr a @ [dq] @ '']''"
    by (simp add: getXPath_def Let_def)
  have pp: "parseXPath (getXPath doc p) = Some (ById (idAttr a))"
    unfolding g by (rule parse_by_id[OF q])
  show "getElementByXPath doc (getXPath doc p) = findFirst (\<lambda>b. idAttr b = idAttr a) doc"
    unfolding getElementByXPath_def pp using ne by simp
next
  assume "idAttr a = [] \<and> htmlPath doc p"
  then have noid: "idAttr a = []" and hp: "htmlPath doc p" by simp_all
  from nodeAt_Element_root[OF e] obtain r rs where doc: "doc = Element r rs" by blast
  from hp doc have hr: "htmlName (localName r)" and hns: "htmlNamespace r" and so: "stepsOk doc p"
    by (simp_all add: htmlPath_def)
  have lr: "toLowerCase (tagName r) = localName r"
    using htmlName_props(1)[OF hr] hns by (simp add: tagName_def)
  let ?steps = "(localName r, 1) # stepsOf doc p"
  have g: "getXPath doc p = ''/'' @ joinWith ''/'' (map partString ?steps)"
    using getXPath_path_form[OF e noid doc] lr by simp
  have "\<forall>tk \<in> set ?steps. htmlName (fst tk)" using stepsOf_names[OF so e] hr by simp
  then have ps: "parseXPath (''/'' @ joinWith ''/'' (map partString ?steps)) = Some (Steps ?steps)"
    by (intro parse_steps) simp_all
  have nt: "nameTest (localName r) doc" using doc hns htmlName_props(2)[OF hr] by simp
  have pp: "parseXPath (getXPath doc p) = Some (Steps ?steps)" unfolding g by (rule ps)
  show "getElementByXPath doc (getXPath doc p) = Some p"
    unfolding getElementByXPath_def pp using nt evalSteps_stepsOf[OF so e] by simp
qed

theorem xpath_round_trip_witness:
  "getElementByXPath exDoc (getXPath exDoc [1, 0]) = Some [1, 0]
   \<and> getElementByXPath exDocDup (getXPath exDocDup [0, 0]) = Some [0, 0]"
proof -
  have e: "nodeAt exDoc [1, 0] = Some (Element \<lparr>htmlNamespace = True, localName = ''p'',
      idAttr = [], className = [], dataHighlightId = None\<rparr>
      [plainElement ''b'' [Text ''xx''], Text ''hello world''])"
    by (simp add: exDoc_def plainElement_def)
  have hp: "htmlPath exDoc [1, 0]" by code_simp
  have d: "nodeAt exDocDup [0, 0] = Some (Element \<lparr>htmlNamespace = True, localName = ''div'',
      idAttr = ''x'', className = [], dataHighlightId = None\<rparr> [])"
    by (simp add: exDocDup_def plainElement_def)
  have f: "findFirst (\<lambda>b. idAttr b = ''x'') exDocDup = Some [0, 0]"
    by (simp add: exDocDup_def plainElement_def)
  have q: "dq \<notin> set ''x''" by (simp add: dq_def)
  from xpath_round_trip[OF e] hp xpath_round_trip[OF d] f q show ?thesis by simp
qed

theorem xpath_round_trip_counterexample:
  "(case nodeAt exDocDup [0, 1] of Some (Element a cs) \<Rightarrow> idAttr a = ''x'' | _ \<Rightarrow> False)
   \<and> getXPath exDocDup [0, 1] = ''//*[@id='' @ [dq] @ ''x'' @ [dq] @ '']''
   \<and> getElementByXPath exDocDup (getXPath exDocDup [0, 1]) = Some [0, 0]
   \<and> getElementByXPath exDocDup (getXPath exDocDup [0, 1]) \<noteq> Some [0, 1]
   \<and> (case nodeAt exDocSvg [0, 0] of Some (Element a cs) \<Rightarrow> localName a = ''svg'' | _ \<Rightarrow> False)
   \<and> getXPath exDocSvg [0, 0] = ''/html[1]/body[1]/svg[1]''
   \<and> getElementByXPath exDocSvg (getXPath exDocSvg [0, 0]) = None"
  by code_simp

section \<open>Capturing a selection\<close>

text \<open>
  C8. For a selection that is empty (no range), collapsed, or whose trimmed string is empty,
  \<open>createHighlightFromSelection\<close> answers \<open>null\<close> and throws nothing, and
  \<open>handleSaveHighlight\<close> returns at once: the document is as before and no
  \<open>saveHighlightData\<close> message is sent. The same holds when there is no selection
  object at all.
\<close>

theorem capture_null:
  "rangeCount sel = 0 \<or> isCollapsed sel \<or> trim (selString sel) = [] \<Longrightarrow>
   createHighlightFromSelection doc sel newId now = Inr None \<and>
   handleSaveHighlight doc (Some sel) newId now answer = Inr (doc, []) \<and>
   handleSaveHighlight doc None newId now answer = Inr (doc, [])"
  by (auto simp: createHighlightFromSelection_def handleSaveHighlight_def rangeCount_def
      isCollapsed_def split: option.splits)

theorem capture_null_witness:
  "trim (selString \<lparr>selRange = Some exRange2, selString = '' ''\<rparr>) = [] \<and>
   createHighlightFromSelection exDoc2 \<lparr>selRange = Some exRange2, selString = '' ''\<rparr> ''u3'' 0 = Inr None \<and>
   handleSaveHighlight exDoc2 (Some \<lparr>selRange = Some exRange2, selString = '' ''\<rparr>) ''u3'' 0 ModalCancel
     = Inr (exDoc2, [])"
proof -
  have t: "trim (selString \<lparr>selRange = Some exRange2, selString = '' ''\<rparr>) = []"
    by (simp add: trim_def isWhiteSpace_def)
  then have "rangeCount \<lparr>selRange = Some exRange2, selString = '' ''\<rparr> = 0
      \<or> isCollapsed \<lparr>selRange = Some exRange2, selString = '' ''\<rparr>
      \<or> trim (selString \<lparr>selRange = Some exRange2, selString = '' ''\<rparr>) = []" by blast
  from capture_null[OF this, of exDoc2 "''u3''" 0 ModalCancel] t show ?thesis by blast
qed

text \<open>
  C10. When the trimmed string of the selection does not stand in the \<open>textContent\<close> of
  the container (\<open>indexOf\<close> answers \<open>-1\<close>), \<open>createHighlightFromSelection\<close> still
  answers a descriptor: its \<open>beforeContext\<close> is empty and its \<open>afterContext\<close> is the up to
  50 code units of the container text from index \<open>text.length - 1\<close> on.
\<close>

theorem capture_text_not_found:
  assumes r: "selRange sel = Some r" and nc: "\<not> collapsed r"
    and t: "trim (selString sel) \<noteq> []"
    and c: "nodeAt doc (commonAncestorContainer r) = Some c"
    and sn: "nodeAt doc (startContainer r) = Some sn" and so: "rangeStartOffset r \<le> nodeLength sn"
    and miss: "indexOf (textContent c) (trim (selString sel)) 0 = - 1"
  shows "\<exists>d. createHighlightFromSelection doc sel newId now = Inr (Some d)
           \<and> hlText d = trim (selString sel)
           \<and> beforeContext d = []
           \<and> afterContext d = take 50 (drop (length (trim (selString sel)) - 1) (textContent c))"
proof -
  obtain q where q: "startContainer r = commonAncestorContainer r @ q"
    using commonPrefix_is_prefix[of "startContainer r" "endContainer r"]
    by (auto simp: commonAncestorContainer_def)
  have nb: "\<not> bpBefore (startContainer r) (rangeStartOffset r) (commonAncestorContainer r) 0"
    using bpBefore_irrefl_prefix[of "commonAncestorContainer r" q] q by simp
  have se: "\<exists>pre. setEndAt doc (selectNodeContents doc (commonAncestorContainer r))
              (startContainer r) (rangeStartOffset r) = Inr pre"
    using sn so nb by (simp add: setEndAt_def selectNodeContents_def)
  then obtain pre where pre: "setEndAt doc (selectNodeContents doc (commonAncestorContainer r))
              (startContainer r) (rangeStartOffset r) = Inr pre" ..
  have b: "substring (textContent c) (max 0 (- 1 - 50)) (- 1) = []"
    by (rule substring_neg) auto
  show ?thesis
    using r nc t c miss pre b substring_after_missing[OF t, of "textContent c"]
    by (simp add: createHighlightFromSelection_def rangeCount_def isCollapsed_def Let_def)
qed

theorem capture_text_not_found_witness:
  "\<exists>d. createHighlightFromSelection exDoc2 exSelection2 ''u2'' 0 = Inr (Some d)
      \<and> hlText d = ''lo'' @ [CHR 0x0A, CHR 0x0A] @ ''Wo''
      \<and> beforeContext d = [] \<and> afterContext d = ''World''"
proof -
  have r: "selRange exSelection2 = Some exRange2" by (simp add: exSelection2_def)
  have nc: "\<not> collapsed exRange2" by (simp add: collapsed_def exRange2_def)
  have tr: "trim (selString exSelection2) = ''lo'' @ [CHR 0x0A, CHR 0x0A] @ ''Wo''" by code_simp
  have t: "trim (selString exSelection2) \<noteq> []" unfolding tr by simp
  have c: "nodeAt exDoc2 (commonAncestorContainer exRange2) = Some (plainElement ''body''
      [plainElement ''p'' [Text ''Hello''], plainElement ''p'' [Text ''World'']])" by code_simp
  have sn: "nodeAt exDoc2 (startContainer exRange2) = Some (Text ''Hello'')" by code_simp
  have so: "rangeStartOffset exRange2 \<le> nodeLength (Text ''Hello'')" by code_simp
  have miss: "indexOf (textContent (plainElement ''body''
      [plainElement ''p'' [Text ''Hello''], plainElement ''p'' [Text ''World'']])) (trim (selString exSelection2)) 0 = - 1" by code_simp
  have a: "take 50 (drop (length (trim (selString exSelection2)) - 1) (textContent (plainElement ''body''
      [plainElement ''p'' [Text ''Hello''], plainElement ''p'' [Text ''World'']]))) = ''World''" by code_simp
  from capture_text_not_found[OF r nc t c sn so miss, of "''u2''" 0]
  obtain d where d: "createHighlightFromSelection exDoc2 exSelection2 ''u2'' 0 = Inr (Some d)"
    "hlText d = trim (selString exSelection2)" "beforeContext d = []"
    "afterContext d = take 50 (drop (length (trim (selString exSelection2)) - 1) (textContent (plainElement ''body''
      [plainElement ''p'' [Text ''Hello''], plainElement ''p'' [Text ''World'']])))" by blast
  from d(4) have "afterContext d = ''World''" unfolding a .
  with d(1,2,3) tr show ?thesis by simp
qed


section \<open>Offsets of a selection inside a Text node\<close>

text \<open>
  C4, evaluated at a selection whose common ancestor is a Text node with text before it in
  its parent. The descriptor has \<open>startOffset = 6\<close> and \<open>endOffset = 11\<close>, counted inside
  the Text node, while its path is that of the parent element, whose flattened text is
  \<open>xxhello world\<close>: the substring from 6 to 11 there is \<open>o wor\<close>, not the text
  \<open>world\<close> of the descriptor.
\<close>

theorem capture_offsets_in_text_node:
  "(case createHighlightFromSelection exDoc exSelection ''u1'' 0 of
     Inr (Some d) \<Rightarrow>
       hlText d = ''world'' \<and> startOffset d = 6 \<and> endOffset d = 11
       \<and> (case getElementByXPath exDoc (xpath d) of
              Some c \<Rightarrow> (case nodeAt exDoc c of
                  Some n \<Rightarrow> descendantText n = ''xxhello world''
                     \<and> substring (descendantText n) (startOffset d) (endOffset d) = ''o wor''
                | None \<Rightarrow> False)
            | None \<Rightarrow> False)
   | _ \<Rightarrow> False)"
  by code_simp

text \<open>
  C1, evaluated at the same selection: on the unchanged document \<open>applyHighlight\<close> succeeds
  for the captured descriptor, but by the full-context search and not by the direct
  resolution of path and offsets.
\<close>

theorem capture_resolves_by_context:
  "(case createHighlightFromSelection exDoc exSelection ''u1'' 0 of
     Inr (Some d) \<Rightarrow>
       (case applyHighlight exDoc d of
          Some (Inr (t, d')) \<Rightarrow> t = Some FullContext
        | _ \<Rightarrow> False)
   | _ \<Rightarrow> False)"
  by code_simp

section \<open>The storage key of a page\<close>

lemma isFormChar_props:
  assumes "isFormChar c"
  shows "(of_char c :: nat) < 128" "(of_char c :: nat) \<noteq> 32" "c \<noteq> CHR ''+''" "c \<noteq> CHR ''%''"
    "c \<noteq> CHR ''&''" "c \<noteq> CHR ''=''" "isQueryChar c" "char_of (of_char c :: nat) = c"
  using assms
  by (auto simp: isFormChar_def isLetter_def isDigit_def isQueryChar_def dq_def Let_def)

lemma hexDigit_props:
  assumes "d < 16"
  shows "isHexDigit (hexDigit d)" "hexValue (hexDigit d) = d" "isFormChar (hexDigit d)"
  using assms
  by (auto simp: isHexDigit_def hexDigit_def hexValue_def isFormChar_def isLetter_def isDigit_def Let_def)

lemma percentDecode_plain: "c \<noteq> CHR ''%'' \<Longrightarrow> percentDecode (c # r) = c # percentDecode r"
  by (cases r rule: percentDecode.cases) auto

lemma percentDecode_hex:
  "isHexDigit h1 \<Longrightarrow> isHexDigit h2 \<Longrightarrow>
   percentDecode (CHR ''%'' # h1 # h2 # r) = char_of (16 * hexValue h1 + hexValue h2) # percentDecode r"
  by simp

lemma urlencodedString_Cons:
  "(of_char c :: nat) < 128 \<Longrightarrow>
   urlencodedString (c # s) = urlencodedByte (of_char c) @ urlencodedString s"
  by (simp add: urlencodedString_def utf8Encode_def)

lemma urlencodedString_Nil: "urlencodedString [] = []"
  by (simp add: urlencodedString_def)

lemma urlencodedByte_chars:
  assumes "b < 128" "x \<in> set (urlencodedByte b)"
  shows "x = CHR ''+'' \<or> x = CHR ''%'' \<or> isFormChar x"
proof -
  have "b div 16 < 16" "b mod 16 < 16" using assms(1) by auto
  then have "isFormChar (hexDigit (b div 16))" "isFormChar (hexDigit (b mod 16))"
    by (auto intro: hexDigit_props)
  with assms(2) show ?thesis
    by (auto simp: urlencodedByte_def split: if_splits)
qed

lemma urlencodedString_chars:
  assumes "\<forall>c \<in> set s. (of_char c :: nat) < 128" "x \<in> set (urlencodedString s)"
  shows "x = CHR ''+'' \<or> x = CHR ''%'' \<or> isFormChar x"
  using assms
proof (induction s)
  case Nil
  then show ?case by (simp add: urlencodedString_Nil)
next
  case (Cons c s)
  then have c: "(of_char c :: nat) < 128" by simp
  from Cons.prems(2) have "x \<in> set (urlencodedByte (of_char c)) \<or> x \<in> set (urlencodedString s)"
    by (simp add: urlencodedString_Cons[OF c])
  then show ?case
  proof
    assume "x \<in> set (urlencodedByte (of_char c))"
    then show ?thesis using urlencodedByte_chars[OF c] by blast
  next
    assume "x \<in> set (urlencodedString s)"
    then show ?thesis using Cons by simp
  qed
qed

lemma urlencodedString_query:
  assumes "\<forall>c \<in> set s. (of_char c :: nat) < 128" "x \<in> set (urlencodedString s)"
  shows "isQueryChar x" "x \<noteq> CHR ''&''" "x \<noteq> CHR ''=''" "x \<noteq> CHR ''#''" "x \<noteq> CHR ''?''"
proof -
  from urlencodedString_chars[OF assms]
  consider "x = CHR ''+''" | "x = CHR ''%''" | "isFormChar x" by blast
  then have "isQueryChar x \<and> x \<noteq> CHR ''&'' \<and> x \<noteq> CHR ''='' \<and> x \<noteq> CHR ''#'' \<and> x \<noteq> CHR ''?''"
  proof cases
    case 1 then show ?thesis by (simp add: isQueryChar_def dq_def)
  next
    case 2 then show ?thesis by (simp add: isQueryChar_def dq_def)
  next
    case 3
    then show ?thesis
      by (auto simp: isFormChar_def isLetter_def isDigit_def isQueryChar_def dq_def Let_def)
  qed
  then show "isQueryChar x" "x \<noteq> CHR ''&''" "x \<noteq> CHR ''=''" "x \<noteq> CHR ''#''" "x \<noteq> CHR ''?''"
    by simp_all
qed

lemma plusToSpace_form: "isFormChar c \<Longrightarrow> plusToSpace c = c"
  using isFormChar_props(3) by (simp add: plusToSpace_def)

lemma decode_byte:
  assumes "(of_char c :: nat) < 128"
  shows "percentDecode (map plusToSpace (urlencodedByte (of_char c) @ r))
         = c # percentDecode (map plusToSpace r)"
proof -
  let ?b = "of_char c :: nat"
  have cc: "char_of ?b = c" by simp
  show ?thesis
  proof (cases "?b = 32")
    case True
    have "(of_char (CHR '' '') :: nat) = 32" by simp
    with True have "(of_char c :: nat) = of_char (CHR '' '')" by simp
    then have c: "c = CHR '' ''" by (simp only: of_char_eq_iff)
    have e: "urlencodedByte 32 = ''+''" by (simp add: urlencodedByte_def)
    show ?thesis unfolding True e unfolding c
      by (simp add: plusToSpace_def percentDecode_plain)
  next
    case False
    show ?thesis
    proof (cases "isFormChar c")
      case True
      have e: "urlencodedByte ?b = [c]" using False True by (simp add: urlencodedByte_def)
      show ?thesis unfolding e using isFormChar_props(4)[OF True]
        by (simp add: plusToSpace_form[OF True] percentDecode_plain)
    next
      case nf: False
      have d: "?b div 16 < 16" "?b mod 16 < 16" using assms by auto
      note h1 = hexDigit_props[OF d(1)] and h2 = hexDigit_props[OF d(2)]
      have e: "urlencodedByte ?b = [CHR ''%'', hexDigit (?b div 16), hexDigit (?b mod 16)]"
        using False nf by (simp add: urlencodedByte_def)
      have v: "16 * hexValue (hexDigit (?b div 16)) + hexValue (hexDigit (?b mod 16)) = ?b"
        unfolding h1(2) h2(2) by simp
      have "percentDecode (CHR ''%'' # hexDigit (?b div 16) # hexDigit (?b mod 16) # map plusToSpace r)
            = char_of ?b # percentDecode (map plusToSpace r)"
        unfolding percentDecode_hex[OF h1(1) h2(1)] v ..
      moreover have "plusToSpace CHR ''%'' = CHR ''%''" by (simp add: plusToSpace_def)
      ultimately show ?thesis unfolding e
        by (simp add: plusToSpace_form[OF h1(3)] plusToSpace_form[OF h2(3)] del: percentDecode.simps)
    qed
  qed
qed

lemma decode_encode:
  "\<forall>c \<in> set s. (of_char c :: nat) < 128 \<Longrightarrow>
   percentDecode (map plusToSpace (urlencodedString s)) = s"
proof (induction s)
  case Nil
  then show ?case by (simp add: urlencodedString_Nil)
next
  case (Cons c s)
  then have c: "(of_char c :: nat) < 128" by simp
  show ?case using Cons decode_byte[OF c, of "urlencodedString s"]
    by (simp add: urlencodedString_Cons[OF c])
qed

lemma parseSequence_encoded:
  assumes n: "\<forall>c \<in> set name. (of_char c :: nat) < 128"
    and v: "\<forall>c \<in> set val. (of_char c :: nat) < 128"
  shows "parseSequence (urlencodedString name @ ''='' @ urlencodedString val) = Some (name, val)"
proof -
  have ne: "\<forall>x \<in> set (urlencodedString name). x \<noteq> CHR ''=''"
    using urlencodedString_query(3)[OF n] by blast
  have t: "takeWhile (\<lambda>c. c \<noteq> CHR ''='') (urlencodedString name @ CHR ''='' # urlencodedString val)
           = urlencodedString name"
    using ne by (simp add: takeWhile_append2)
  have d: "dropWhile (\<lambda>c. c \<noteq> CHR ''='') (urlencodedString name @ CHR ''='' # urlencodedString val)
           = CHR ''='' # urlencodedString val"
    using ne by (simp add: dropWhile_append2)
  have un: "utf8Decode name = Some name" using n by (simp add: utf8Decode_def list_all_iff)
  have uv: "utf8Decode val = Some val" using v by (simp add: utf8Decode_def list_all_iff)
  show ?thesis
    by (simp add: parseSequence_def t d decode_encode[OF n] decode_encode[OF v] un uv)
qed

lemma joinWith_nonempty: "x \<noteq> [] \<Longrightarrow> joinWith sep (x # xs) \<noteq> []"
  by (cases xs) auto

lemma those_map_f:
  "\<forall>x \<in> set xs. f x = Some (g x) \<Longrightarrow> those (map f xs) = Some (map g xs)"
  by (induction xs) auto

lemma those_Some_set:
  "those xs = Some ys \<Longrightarrow> y \<in> set ys \<Longrightarrow> Some y \<in> set xs"
proof (induction xs arbitrary: ys)
  case Nil
  then show ?case by simp
next
  case (Cons x xs)
  then show ?case by (auto split: option.splits)
qed

lemma searchParamsToString_empty: "searchParamsToString ps = [] \<longleftrightarrow> ps = []"
proof (cases ps)
  case Nil
  then show ?thesis by (simp add: searchParamsToString_def)
next
  case (Cons p ps')
  obtain n v where p: "p = (n, v)" by (cases p)
  have "joinWith ''&'' ((urlencodedString n @ ''='' @ urlencodedString v)
          # map (\<lambda>(name, val). urlencodedString name @ ''='' @ urlencodedString val) ps') \<noteq> []"
    by (rule joinWith_nonempty) simp
  then show ?thesis by (simp add: searchParamsToString_def Cons p)
qed

lemma searchParamsToString_chars:
  assumes "asciiParams ps" "x \<in> set (searchParamsToString ps)"
  shows "isQueryChar x"
  using assms
proof (induction ps)
  case Nil
  then show ?case by (simp add: searchParamsToString_def)
next
  case (Cons p ps)
  obtain n v where p: "p = (n, v)" by (cases p)
  from Cons.prems(1) have n: "\<forall>c \<in> set n. (of_char c :: nat) < 128"
    and v: "\<forall>c \<in> set v. (of_char c :: nat) < 128" and rest: "asciiParams ps"
    by (auto simp: asciiParams_def p)
  have amp: "isQueryChar CHR ''&''" "isQueryChar CHR ''=''" by (simp_all add: isQueryChar_def dq_def)
  have item: "y \<in> set (urlencodedString n @ ''='' @ urlencodedString v) \<Longrightarrow> isQueryChar y" for y
    using urlencodedString_query(1)[OF n] urlencodedString_query(1)[OF v] amp by auto
  show ?case
  proof (cases ps)
    case Nil
    then show ?thesis using Cons.prems(2) item by (simp add: searchParamsToString_def p)
  next
    case (Cons q qs)
    with Cons.prems(2)
    have "x \<in> set (urlencodedString n @ ''='' @ urlencodedString v) \<or> x = CHR ''&''
          \<or> x \<in> set (searchParamsToString ps)"
      by (auto simp: searchParamsToString_def p)
    then show ?thesis using item amp Cons.IH[OF rest] by blast
  qed
qed

lemma urlencodedParse_toString:
  assumes "asciiParams ps"
  shows "urlencodedParse (searchParamsToString ps) = Some ps"
proof (cases "ps = []")
  case True
  then show ?thesis by (simp add: urlencodedParse_def searchParamsToString_def)
next
  case False
  let ?item = "\<lambda>(name, val). urlencodedString name @ ''='' @ urlencodedString val"
  let ?items = "map ?item ps"
  have ne: "?items \<noteq> []" using False by simp
  have noamp: "\<forall>s \<in> set ?items. CHR ''&'' \<notin> set s"
  proof
    fix s assume "s \<in> set ?items"
    then obtain n v where nv: "(n, v) \<in> set ps" and s: "s = urlencodedString n @ ''='' @ urlencodedString v"
      by auto
    from assms nv have n: "\<forall>c \<in> set n. (of_char c :: nat) < 128"
      and v: "\<forall>c \<in> set v. (of_char c :: nat) < 128"
      by (auto simp: asciiParams_def)
    show "CHR ''&'' \<notin> set s"
      using urlencodedString_query(2)[OF n] urlencodedString_query(2)[OF v] by (auto simp: s)
  qed
  have sp: "splitOn CHR ''&'' (joinWith ''&'' ?items) = ?items"
    using splitOn_join[OF ne noamp] by simp
  have nonempty: "filter (\<lambda>s. s \<noteq> []) ?items = ?items"
    by (rule filter_True) auto
  have each: "\<forall>p \<in> set ps. parseSequence (?item p) = Some (id p)"
  proof
    fix p assume pin: "p \<in> set ps"
    obtain n v where p: "p = (n, v)" by (cases p)
    from assms pin have n: "\<forall>c \<in> set n. (of_char c :: nat) < 128"
      and v: "\<forall>c \<in> set v. (of_char c :: nat) < 128"
      by (auto simp: asciiParams_def p)
    show "parseSequence (?item p) = Some (id p)"
      using parseSequence_encoded[OF n v] by (simp add: p)
  qed
  have "those (map (\<lambda>p. parseSequence (?item p)) ps) = Some (map id ps)"
    by (rule those_map_f) (use each in blast)
  then have "those (map parseSequence ?items) = Some ps" by (simp add: comp_def)
  then show ?thesis
    unfolding urlencodedParse_def searchParamsToString_def sp nonempty .
qed

lemma parseSequence_ascii:
  assumes "parseSequence bytes = Some (n, v)"
  shows "(\<forall>c \<in> set n. (of_char c :: nat) < 128) \<and> (\<forall>c \<in> set v. (of_char c :: nat) < 128)"
  using assms
  by (auto simp: parseSequence_def utf8Decode_def Let_def list_all_iff split: if_splits option.splits)

lemma urlencodedParse_ascii:
  assumes "urlencodedParse q = Some ps"
  shows "asciiParams ps"
  unfolding asciiParams_def
proof (clarify)
  fix n v assume "(n, v) \<in> set ps"
  with assms have "Some (n, v) \<in> set (map parseSequence (filter (\<lambda>s. s \<noteq> []) (splitOn CHR ''&'' q)))"
    unfolding urlencodedParse_def by (rule those_Some_set)
  then obtain bytes where "parseSequence bytes = Some (n, v)" by auto
  from parseSequence_ascii[OF this]
  show "(\<forall>c \<in> set n. (of_char c :: nat) < 128) \<and> (\<forall>c \<in> set v. (of_char c :: nat) < 128)" .
qed

lemma cleaned_foldl:
  assumes "\<forall>k \<in> set ks. map_of ps k \<noteq> None"
  shows "foldl (\<lambda>cleaned key.
                  case searchParamsGet ps key of
                    Some val \<Rightarrow> searchParamsAppend cleaned key val
                  | None \<Rightarrow> cleaned) acc ks
         = acc @ map (\<lambda>k. (k, the (map_of ps k))) ks"
  using assms
proof (induction ks arbitrary: acc)
  case Nil
  then show ?case by simp
next
  case (Cons k ks)
  then obtain v where v: "map_of ps k = Some v" by auto
  show ?case using Cons v
    by (simp add: searchParamsGet_def searchParamsAppend_def)
qed

lemma cleanedParams_map:
  "cleanedParams ps
   = map (\<lambda>k. (k, the (map_of ps k)))
       (sort (filter (\<lambda>key. toLowerCase key \<notin> set TRACKING_PARAMS) (map fst ps)))"
proof -
  let ?ks = "sort (filter (\<lambda>key. toLowerCase key \<notin> set TRACKING_PARAMS) (map fst ps))"
  have "\<forall>k \<in> set ?ks. map_of ps k \<noteq> None"
    by (auto simp: map_of_eq_None_iff)
  from cleaned_foldl[OF this, of "[]"] show ?thesis
    by (simp add: cleanedParams_def searchParamsKeys_def)
qed

lemma cleanedParams_idem: "cleanedParams (cleanedParams ps) = cleanedParams ps"
proof -
  let ?P = "\<lambda>key. toLowerCase key \<notin> set TRACKING_PARAMS"
  let ?ks = "sort (filter ?P (map fst ps))"
  let ?f = "\<lambda>k. the (map_of ps k)"
  let ?c = "map (\<lambda>k. (k, ?f k)) ?ks"
  have c: "cleanedParams ps = ?c" by (rule cleanedParams_map)
  have keys: "map fst ?c = ?ks" by (simp add: comp_def)
  have fl: "filter ?P ?ks = ?ks" by (rule filter_True) auto
  have so: "sort ?ks = ?ks" by (rule sort_key_id_if_sorted) simp
  have "map (\<lambda>k. (k, the (map_of ?c k))) ?ks = map (\<lambda>k. (k, ?f k)) ?ks"
  proof (rule map_cong[OF refl])
    fix k assume "k \<in> set ?ks"
    then have "map_of ?c k = Some (?f k)"
      by (simp add: map_of_map_restrict restrict_map_def)
    then show "(k, the (map_of ?c k)) = (k, ?f k)" by simp
  qed
  then have "cleanedParams ?c = ?c"
    unfolding cleanedParams_map[of ?c] keys fl so .
  then show ?thesis unfolding c .
qed

lemma cleanedParams_ascii:
  assumes "asciiParams ps"
  shows "asciiParams (cleanedParams ps)"
  unfolding asciiParams_def cleanedParams_map
proof (clarify)
  fix n v
  assume "(n, v) \<in> set (map (\<lambda>k. (k, the (map_of ps k)))
             (sort (filter (\<lambda>key. toLowerCase key \<notin> set TRACKING_PARAMS) (map fst ps))))"
  then have n: "n \<in> fst ` set ps" and v: "v = the (map_of ps n)" by auto
  from n obtain w where "map_of ps n = Some w"
    by (cases "map_of ps n") (auto simp: map_of_eq_None_iff)
  with v have "(n, v) \<in> set ps" by (auto dest: map_of_SomeD)
  with assms show "(\<forall>c \<in> set n. (of_char c :: nat) < 128) \<and> (\<forall>c \<in> set v. (of_char c :: nat) < 128)"
    by (auto simp: asciiParams_def)
qed

lemma splitOn_chars: "w \<in> set (splitOn c s) \<Longrightarrow> c \<notin> set w \<and> set w \<subseteq> set s"
proof (induction s arbitrary: w)
  case Nil
  then show ?case by simp
next
  case (Cons x s)
  show ?case
  proof (cases "x = c")
    case True
    with Cons show ?thesis by auto
  next
    case False
    obtain w0 ws where sp: "splitOn c s = w0 # ws"
      using splitOn_nonempty[of c s] by (cases "splitOn c s") auto
    from Cons.prems False sp have "w = x # w0 \<or> w \<in> set ws" by simp
    then show ?thesis
    proof
      assume w: "w = x # w0"
      from Cons.IH[of w0] sp have "c \<notin> set w0 \<and> set w0 \<subseteq> set s" by simp
      with w False show ?thesis by auto
    next
      assume "w \<in> set ws"
      with Cons.IH[of w] sp show ?thesis by auto
    qed
  qed
qed

lemma splitOn_covers: "x \<in> set s \<Longrightarrow> x = c \<or> (\<exists>w \<in> set (splitOn c s). x \<in> set w)"
proof (induction s)
  case Nil
  then show ?case by simp
next
  case (Cons y s)
  obtain w0 ws where sp: "splitOn c s = w0 # ws"
    using splitOn_nonempty[of c s] by (cases "splitOn c s") auto
  show ?case
  proof (cases "x = c")
    case True
    then show ?thesis by simp
  next
    case xc: False
    show ?thesis
    proof (cases "y = c")
      case True
      with Cons xc show ?thesis by auto
    next
      case False
      from Cons.prems have "x = y \<or> x \<in> set s" by simp
      then show ?thesis
      proof
        assume "x = y"
        then show ?thesis using False sp by simp
      next
        assume "x \<in> set s"
        from Cons.IH[OF this] xc obtain w where "w \<in> set (w0 # ws)" "x \<in> set w"
          using sp by auto
        then show ?thesis using False sp by auto
      qed
    qed
  qed
qed

lemma pathState_clean:
  assumes "cleanPath acc" "\<forall>s \<in> set segs. CHR ''/'' \<notin> set s \<and> list_all isPathChar s"
  shows "cleanPath (pathState acc segs)"
  using assms
proof (induction segs arbitrary: acc)
  case Nil
  then show ?case by simp
next
  case (Cons seg rest)
  have bl: "cleanPath (butlast acc)"
    using Cons.prems(1) by (auto simp: cleanPath_def dest: in_set_butlastD)
  have e: "cleanPath (xs @ [[]])" if "cleanPath xs" for xs
    using that by (auto simp: cleanPath_def)
  have r: "\<forall>s \<in> set rest. CHR ''/'' \<notin> set s \<and> list_all isPathChar s" using Cons.prems(2) by simp
  show ?case
  proof (cases "seg = ''..''")
    case True
    then show ?thesis using Cons.IH[OF bl r] Cons.IH[OF e[OF bl] r] e[OF bl] by simp
  next
    case nd: False
    show ?thesis
    proof (cases "seg = ''.''")
      case True
      then show ?thesis
        using Cons.IH[OF Cons.prems(1) r] Cons.IH[OF e[OF Cons.prems(1)] r] e[OF Cons.prems(1)]
        by simp
    next
      case False
      have "cleanPath (acc @ [seg])"
        using Cons.prems nd False by (auto simp: cleanPath_def)
      from Cons.IH[OF this r] show ?thesis using nd False by simp
    qed
  qed
qed

lemma pathState_nonempty: "segs \<noteq> [] \<Longrightarrow> pathState acc segs \<noteq> []"
proof (induction segs arbitrary: acc)
  case Nil
  then show ?case by simp
next
  case (Cons seg rest)
  show ?case
  proof (cases "rest = []")
    case True
    then show ?thesis by simp
  next
    case False
    then show ?thesis using Cons.IH by simp
  qed
qed

lemma pathState_id: "cleanPath segs \<Longrightarrow> pathState acc segs = acc @ segs"
proof (induction segs arbitrary: acc)
  case Nil
  then show ?case by simp
next
  case (Cons seg rest)
  then have "seg \<noteq> ''.''" "seg \<noteq> ''..''" "cleanPath rest" by (auto simp: cleanPath_def)
  then show ?case using Cons.IH[of "acc @ [seg]"] by simp
qed

lemma serial_join:
  "segs \<noteq> [] \<Longrightarrow> concat (map (\<lambda>seg. CHR ''/'' # seg) segs) = CHR ''/'' # joinWith ''/'' segs"
proof (induction segs)
  case Nil
  then show ?case by simp
next
  case (Cons s segs)
  then show ?case by (cases segs) auto
qed

lemma serial_chars:
  "cleanPath segs \<Longrightarrow> list_all isPathChar (concat (map (\<lambda>seg. CHR ''/'' # seg) segs))"
  by (induction segs) (auto simp: cleanPath_def isPathChar_def)

lemma serial_last:
  assumes "cleanPath segs" "segs \<noteq> []"
  shows "last (concat (map (\<lambda>seg. CHR ''/'' # seg) segs)) = CHR ''/'' \<longleftrightarrow> last segs = []"
proof -
  from assms(2) obtain xs x where s: "segs = xs @ [x]" by (metis rev_exhaust)
  with assms(1) have nx: "CHR ''/'' \<notin> set x" by (auto simp: cleanPath_def)
  have c: "concat (map (\<lambda>seg. CHR ''/'' # seg) segs)
        = concat (map (\<lambda>seg. CHR ''/'' # seg) xs) @ CHR ''/'' # x" by (simp add: s)
  show ?thesis
  proof (cases "x = []")
    case True
    then show ?thesis by (simp add: c s)
  next
    case False
    then have "last x \<in> set x" by simp
    with nx have "last x \<noteq> CHR ''/''" by auto
    then show ?thesis using False by (simp add: c s)
  qed
qed

lemma replaceTrailingSlash_serial:
  assumes "cleanPath segs" "segs \<noteq> []"
  shows "replaceTrailingSlash (concat (map (\<lambda>seg. CHR ''/'' # seg) segs))
         = concat (map (\<lambda>seg. CHR ''/'' # seg) (if last segs = [] then butlast segs else segs))"
proof -
  from assms(2) obtain xs x where s: "segs = xs @ [x]" by (metis rev_exhaust)
  have ne: "concat (map (\<lambda>seg. CHR ''/'' # seg) segs) \<noteq> []" using assms(2) by (cases segs) auto
  show ?thesis
  proof (cases "last segs = []")
    case True
    then have x: "x = []" using s by simp
    have "concat (map (\<lambda>seg. CHR ''/'' # seg) segs)
        = concat (map (\<lambda>seg. CHR ''/'' # seg) xs) @ ''/''" by (simp add: s x)
    then show ?thesis using True by (simp add: replaceTrailingSlash_def s x)
  next
    case False
    then show ?thesis using serial_last[OF assms] ne by (simp add: replaceTrailingSlash_def)
  qed
qed

lemma validHost_chars:
  assumes "validHost h" "c \<in> set h"
  shows "c \<notin> set ''/?#''"
proof -
  from splitOn_covers[OF assms(2), of "CHR ''.''"]
  consider "c = CHR ''.''" | w where "w \<in> set (splitOn CHR ''.'' h)" "c \<in> set w" by blast
  then show ?thesis
  proof cases
    case 1
    then show ?thesis by simp
  next
    case 2
    with assms(1) have "hostLabel w" by (simp add: validHost_def list_all_iff)
    with 2(2) have "isLowerAlpha c \<or> isDigit c"
      by (cases w) (auto simp: hostLabel_def list_all_iff)
    then show ?thesis by (auto simp: isLowerAlpha_def isDigit_def)
  qed
qed

lemma isPathChar_notq: "isPathChar c \<Longrightarrow> c \<notin> set ''?#''"
  by (auto simp: isPathChar_def isLetter_def isDigit_def Let_def)

lemma isQueryChar_nothash: "isQueryChar c \<Longrightarrow> c \<noteq> CHR ''#''"
  by (auto simp: isQueryChar_def)

lemma specialScheme_build:
  "sch = ''http'' \<or> sch = ''https'' \<Longrightarrow> specialScheme (sch @ ''://'' @ r) = Some (sch, r)"
  by (auto simp: specialScheme_def)

lemma specialScheme_Some:
  "specialScheme u = Some (sch, r) \<Longrightarrow> sch = ''http'' \<or> sch = ''https''"
  by (auto simp: specialScheme_def split: if_splits)

lemma URL_new_special:
  assumes "specialScheme u = Some (sch, rest)"
    and "takeWhile (\<lambda>c. c \<notin> set ''/?#'') rest = hS"
    and "dropWhile (\<lambda>c. c \<notin> set ''/?#'') rest = r1"
    and "takeWhile (\<lambda>c. c \<notin> set ''?#'') r1 = pS"
    and "dropWhile (\<lambda>c. c \<notin> set ''?#'') r1 = r2"
    and "(case r2 of [] \<Rightarrow> None
          | c # r \<Rightarrow> if c = CHR ''?'' then Some (takeWhile (\<lambda>d. d \<noteq> CHR ''#'') r) else None) = q"
    and "validHost hS" "list_all isPathChar pS"
    and "case q of None \<Rightarrow> True | Some s \<Rightarrow> list_all isQueryChar s"
  shows "URL_new u = Some (Inr \<lparr>urlScheme = sch, urlHost = hS,
                                 urlPath = pathState [] (splitOn CHR ''/'' (tl pS)),
                                 urlQuery = q\<rparr>)"
proof -
  have "URL_new u =
        (if validHost hS \<and> list_all isPathChar pS
            \<and> (case q of None \<Rightarrow> True | Some s \<Rightarrow> list_all isQueryChar s)
         then Some (Inr \<lparr>urlScheme = sch, urlHost = hS,
                         urlPath = pathState [] (splitOn CHR ''/'' (tl pS)),
                         urlQuery = q\<rparr>)
         else None)"
    by (simp only: URL_new_def Let_def assms(1-6) option.case prod.case)
  then show ?thesis using assms(7-9) by simp
qed

lemma URL_new_build:
  assumes sch: "sch = ''http'' \<or> sch = ''https''"
    and h: "validHost h"
    and P: "list_all isPathChar P" "P = [] \<or> hd P = CHR ''/''"
    and q: "list_all isQueryChar qs"
  shows "URL_new (sch @ ''://'' @ h @ P @ (if qs \<noteq> [] then ''?'' @ qs else []))
         = Some (Inr \<lparr>urlScheme = sch, urlHost = h,
                       urlPath = pathState [] (splitOn CHR ''/'' (tl P)),
                       urlQuery = (if qs \<noteq> [] then Some qs else None)\<rparr>)"
proof -
  let ?Q = "if qs \<noteq> [] then ''?'' @ qs else []"
  let ?R = "P @ ?Q"
  let ?hp = "\<lambda>c. c \<notin> set ''/?#''"
  let ?pp = "\<lambda>c. c \<notin> set ''?#''"
  have hc: "\<And>c. c \<in> set h \<Longrightarrow> ?hp c" using validHost_chars[OF h] by blast
  have R0: "takeWhile ?hp ?R = []"
  proof (cases P)
    case Nil
    then show ?thesis by simp
  next
    case (Cons a as)
    with P(2) have "a = CHR ''/''" by simp
    then show ?thesis by (simp add: Cons)
  qed
  have R1: "dropWhile ?hp ?R = ?R"
  proof (cases P)
    case Nil
    then show ?thesis by simp
  next
    case (Cons a as)
    with P(2) have "a = CHR ''/''" by simp
    then show ?thesis by (simp add: Cons)
  qed
  have t1: "takeWhile ?hp (h @ ?R) = h"
    using takeWhile_append2[of h ?hp ?R] hc R0 by simp
  have d1: "dropWhile ?hp (h @ ?R) = ?R"
    using dropWhile_append2[of h ?hp ?R] hc R1 by simp
  have pc: "\<And>c. c \<in> set P \<Longrightarrow> ?pp c"
    using P(1) isPathChar_notq by (auto simp: list_all_iff)
  have Q0: "takeWhile ?pp ?Q = []" by simp
  have Q1: "dropWhile ?pp ?Q = ?Q" by simp
  have t2: "takeWhile ?pp ?R = P"
    using takeWhile_append2[of P ?pp ?Q] pc Q0 by simp
  have d2: "dropWhile ?pp ?R = ?Q"
    using dropWhile_append2[of P ?pp ?Q] pc Q1 by simp
  have tq: "takeWhile (\<lambda>d. d \<noteq> CHR ''#'') qs = qs"
    using q isQueryChar_nothash by (auto simp: list_all_iff takeWhile_eq_all_conv)
  have s: "specialScheme (sch @ ''://'' @ h @ ?R) = Some (sch, h @ ?R)"
    by (rule specialScheme_build[OF sch])
  have qq: "(case ?Q of [] \<Rightarrow> None
             | c # r \<Rightarrow> if c = CHR ''?'' then Some (takeWhile (\<lambda>d. d \<noteq> CHR ''#'') r) else None)
            = (if qs \<noteq> [] then Some qs else None)"
    using tq by simp
  have qv: "case (if qs \<noteq> [] then Some qs else None) of None \<Rightarrow> True
            | Some s \<Rightarrow> list_all isQueryChar s"
    using q by simp
  have "URL_new (sch @ ''://'' @ h @ ?R)
         = Some (Inr \<lparr>urlScheme = sch, urlHost = h,
                       urlPath = pathState [] (splitOn CHR ''/'' (tl P)),
                       urlQuery = (if qs \<noteq> [] then Some qs else None)\<rparr>)"
    by (rule URL_new_special[OF s t1 d1 t2 d2 qq h P(1) qv])
  then show ?thesis by simp
qed

lemma URL_new_Inr:
  assumes "URL_new u = Some (Inr p)"
  shows "urlScheme p = ''http'' \<or> urlScheme p = ''https''" "validHost (urlHost p)"
    "cleanPath (urlPath p)" "urlPath p \<noteq> []"
proof -
  from assms obtain sch rest where s: "specialScheme u = Some (sch, rest)"
    by (cases "specialScheme u") (auto simp: URL_new_def split: if_splits)
  let ?r1 = "dropWhile (\<lambda>c. c \<notin> set ''/?#'') rest"
  let ?pathS = "takeWhile (\<lambda>c. c \<notin> set ''?#'') ?r1"
  from assms s have p: "urlScheme p = sch" "urlHost p = takeWhile (\<lambda>c. c \<notin> set ''/?#'') rest"
    "urlPath p = pathState [] (splitOn CHR ''/'' (tl ?pathS))"
    and v: "validHost (takeWhile (\<lambda>c. c \<notin> set ''/?#'') rest)" "list_all isPathChar ?pathS"
    by (auto simp: URL_new_def Let_def split: if_splits)
  show "urlScheme p = ''http'' \<or> urlScheme p = ''https''"
    using specialScheme_Some[OF s] p(1) by simp
  show "validHost (urlHost p)" using v(1) p(2) by simp
  have segs: "\<forall>s \<in> set (splitOn CHR ''/'' (tl ?pathS)). CHR ''/'' \<notin> set s \<and> list_all isPathChar s"
  proof
    fix w assume "w \<in> set (splitOn CHR ''/'' (tl ?pathS))"
    from splitOn_chars[OF this] have "CHR ''/'' \<notin> set w" "set w \<subseteq> set (tl ?pathS)" by simp_all
    moreover have "set (tl ?pathS) \<subseteq> set ?pathS" by (cases ?pathS) auto
    ultimately show "CHR ''/'' \<notin> set w \<and> list_all isPathChar w"
      using v(2) by (auto simp: list_all_iff)
  qed
  have "cleanPath []" by (simp add: cleanPath_def)
  from pathState_clean[OF this segs] show "cleanPath (urlPath p)" unfolding p(3) .
  show "urlPath p \<noteq> []" unfolding p(3) by (rule pathState_nonempty) (rule splitOn_nonempty)
qed

lemma normalizeUrl_Inr:
  assumes "URL_new u = Some (Inr p)" "URLSearchParams_new (search p) = Some ps"
  shows "normalizeUrl u
         = Some (origin p @ replaceTrailingSlash (pathname p)
                 @ (if searchParamsToString (cleanedParams ps) \<noteq> []
                    then ''?'' @ searchParamsToString (cleanedParams ps) else []))"
  by (simp add: normalizeUrl_def assms cleanedParams_def Let_def)

lemma URLSearchParams_new_ascii: "URLSearchParams_new s = Some ps \<Longrightarrow> asciiParams ps"
  unfolding URLSearchParams_new_def by (rule urlencodedParse_ascii)

lemma URLSearchParams_new_search:
  assumes "asciiParams c"
  shows "URLSearchParams_new (if searchParamsToString c \<noteq> [] then CHR ''?'' # searchParamsToString c else [])
         = Some c"
proof (cases "searchParamsToString c = []")
  case True
  then have "c = []" by (simp add: searchParamsToString_empty)
  then show ?thesis using True by (simp add: URLSearchParams_new_def urlencodedParse_def)
next
  case False
  then show ?thesis
    using urlencodedParse_toString[OF assms] by (simp add: URLSearchParams_new_def)
qed

lemma cleanPath_butlast: "cleanPath segs \<Longrightarrow> cleanPath (butlast segs)"
  by (auto simp: cleanPath_def dest: in_set_butlastD)

lemma reparse_path:
  assumes c: "cleanPath segs"
    and l: "segs = [] \<or> last segs \<noteq> []"
  shows "replaceTrailingSlash
           (concat (map (\<lambda>seg. CHR ''/'' # seg)
              (pathState [] (splitOn CHR ''/'' (tl (concat (map (\<lambda>seg. CHR ''/'' # seg) segs)))))))
         = concat (map (\<lambda>seg. CHR ''/'' # seg) segs)"
proof (cases "segs = []")
  case True
  then show ?thesis by (simp add: replaceTrailingSlash_def)
next
  case False
  have nosl: "\<forall>s \<in> set segs. CHR ''/'' \<notin> set s" using c by (simp add: cleanPath_def)
  have "tl (concat (map (\<lambda>seg. CHR ''/'' # seg) segs)) = joinWith ''/'' segs"
    by (simp add: serial_join[OF False])
  moreover have "splitOn CHR ''/'' (joinWith ''/'' segs) = segs"
    using splitOn_join[OF False nosl] by simp
  moreover have "pathState [] segs = segs" using pathState_id[OF c, of "[]"] by simp
  ultimately have e: "pathState [] (splitOn CHR ''/'' (tl (concat (map (\<lambda>seg. CHR ''/'' # seg) segs))))
                      = segs" by simp
  from l False have "last segs \<noteq> []" by simp
  with serial_last[OF c False]
  have "last (concat (map (\<lambda>seg. CHR ''/'' # seg) segs)) \<noteq> CHR ''/''" by simp
  then show ?thesis unfolding e by (simp add: replaceTrailingSlash_def)
qed

lemma two_slashes:
  assumes "segs \<noteq> []" "last segs = []" "butlast segs \<noteq> []" "last (butlast segs) = []"
  shows "suffix ''//'' (concat (map (\<lambda>seg. CHR ''/'' # seg) segs))"
proof -
  from assms(1,2) obtain xs where s: "segs = xs @ [[]]" by (metis append_butlast_last_id)
  with assms(3,4) obtain ys where x: "xs = ys @ [[]]" by (metis append_butlast_last_id butlast_snoc)
  have "concat (map (\<lambda>seg. CHR ''/'' # seg) segs)
        = concat (map (\<lambda>seg. CHR ''/'' # seg) ys) @ ''//''" by (simp add: s x)
  then show ?thesis by (simp add: suffix_def)
qed

text \<open>
  On the strings that are modelled, two slashes at the end of the parsed pathname are the
  only way for a second \<open>normalizeUrl\<close> to change the result: for every string that the
  URL constructor rejects for want of a scheme, and for every modelled URL whose parsed
  pathname does not end with two slashes, \<open>normalizeUrl\<close> answers a string that a second
  call leaves as it is.
\<close>

lemma normalizeUrl_fixed_point:
  assumes n: "normalizeUrl u = Some v"
    and s: "case URL_new u of Some (Inr parsed) \<Rightarrow> \<not> suffix ''//'' (pathname parsed) | _ \<Rightarrow> True"
  shows "normalizeUrl v = Some v"
proof (cases "URL_new u")
  case None
  with n show ?thesis by (simp add: normalizeUrl_def)
next
  case (Some r)
  show ?thesis
  proof (cases r)
    case (Inl e)
    with Some n have "v = u" by (simp add: normalizeUrl_def)
    then show ?thesis using Some Inl by (simp add: normalizeUrl_def)
  next
    case (Inr p)
    with Some have up: "URL_new u = Some (Inr p)" by simp
    from n up obtain ps where ps: "URLSearchParams_new (search p) = Some ps"
      by (cases "URLSearchParams_new (search p)") (auto simp: normalizeUrl_def)
    let ?ser = "\<lambda>segs. concat (map (\<lambda>seg. CHR ''/'' # seg) segs)"
    let ?c = "cleanedParams ps"
    let ?qs = "searchParamsToString ?c"
    let ?segs = "if last (urlPath p) = [] then butlast (urlPath p) else urlPath p"
    note pr = URL_new_Inr[OF up]
    have strip: "replaceTrailingSlash (pathname p) = ?ser ?segs"
      unfolding pathname_def by (rule replaceTrailingSlash_serial[OF pr(3,4)])
    have v: "v = urlScheme p @ ''://'' @ urlHost p @ ?ser ?segs @ (if ?qs \<noteq> [] then ''?'' @ ?qs else [])"
      using n unfolding normalizeUrl_Inr[OF up ps] strip by (simp add: origin_def)
    have cl: "cleanPath ?segs" using pr(3) cleanPath_butlast by simp
    have ac: "asciiParams ?c" by (rule cleanedParams_ascii[OF URLSearchParams_new_ascii[OF ps]])
    have qc: "list_all isQueryChar ?qs"
      using searchParamsToString_chars[OF ac] by (simp add: list_all_iff)
    have hd: "?ser ?segs = [] \<or> hd (?ser ?segs) = CHR ''/''" by (cases ?segs) simp_all
    let ?p' = "\<lparr>urlScheme = urlScheme p, urlHost = urlHost p,
                 urlPath = pathState [] (splitOn CHR ''/'' (tl (?ser ?segs))),
                 urlQuery = (if ?qs \<noteq> [] then Some ?qs else None)\<rparr>"
    have vp: "URL_new v = Some (Inr ?p')"
      unfolding v by (rule URL_new_build[OF pr(1,2) serial_chars[OF cl] hd qc])
    have se: "search ?p' = (if ?qs \<noteq> [] then CHR ''?'' # ?qs else [])" by (simp add: search_def)
    have sp: "URLSearchParams_new (search ?p') = Some ?c"
      unfolding se by (rule URLSearchParams_new_search[OF ac])
    have last: "?segs = [] \<or> last ?segs \<noteq> []"
    proof (rule ccontr)
      assume "\<not> (?segs = [] \<or> last ?segs \<noteq> [])"
      then have a: "?segs \<noteq> []" "last ?segs = []" by simp_all
      then have l: "last (urlPath p) = []" by (simp split: if_splits)
      with a have "butlast (urlPath p) \<noteq> []" "last (butlast (urlPath p)) = []" by simp_all
      from two_slashes[OF pr(4) l this] have "suffix ''//'' (pathname p)" by (simp add: pathname_def)
      with s up show False by simp
    qed
    have pa: "replaceTrailingSlash (pathname ?p') = ?ser ?segs"
      using reparse_path[OF cl last] by (simp add: pathname_def)
    have "normalizeUrl v
          = Some (origin ?p' @ replaceTrailingSlash (pathname ?p')
                  @ (if searchParamsToString (cleanedParams ?c) \<noteq> []
                     then ''?'' @ searchParamsToString (cleanedParams ?c) else []))"
      by (rule normalizeUrl_Inr[OF vp sp])
    also have "\<dots> = Some v"
      unfolding pa cleanedParams_idem v by (simp add: origin_def)
    finally show ?thesis .
  qed
qed

text \<open>
  C9, evaluated at \<open>https://example.com/a//\<close>. \<open>normalizeUrl\<close> strips one slash and
  answers \<open>https://example.com/a/\<close>, which still ends with a slash; \<open>normalizeUrl\<close> of
  that answer is \<open>https://example.com/a\<close>. So the second call changes the result, and the
  storage key of the page differs from the storage key of the normalised url that is stored
  with its highlights.
\<close>

theorem normalizeUrl_twice:
  "normalizeUrl ''https://example.com/a//'' = Some ''https://example.com/a/''
   \<and> normalizeUrl ''https://example.com/a/'' = Some ''https://example.com/a''
   \<and> getStorageKey ''https://example.com/a//'' = Some ''highlights_https://example.com/a/''
   \<and> getStorageKey ''https://example.com/a/'' = Some ''highlights_https://example.com/a''"
  by code_simp

end
